theory Spec2Isabelle
  imports Complex_Main "HOL-Library.Word" "HOL-Library.Multiset" "HOL-Library.Sublist"
begin

unbundle bit_operations_syntax

section \<open>Trigram similarity (package skills, search cache)\<close>

text \<open>
  A Go \<open>string\<close> is a sequence of bytes: \<open>len(s)\<close> counts bytes and \<open>s[i]\<close> is a byte.
  Isabelle's \<open>char\<close> is a byte as well, so a Go string is a \<open>string\<close> here.
\<close>

type_synonym uint32 = "32 word"

text \<open>The packing \<open>uint32(s[i])<<16 | uint32(s[i+1])<<8 | uint32(s[i+2])\<close> of one window.\<close>

definition trigramHash :: "char \<Rightarrow> char \<Rightarrow> char \<Rightarrow> uint32" where
  "trigramHash a b c = push_bit 16 (of_char a) OR push_bit 8 (of_char b) OR of_char c"

text \<open>
  One iteration of the in-place deduplication loop of \<open>buildTrigrams\<close>:
  \<open>if trigrams[i] != trigrams[i-1] { trigrams[n] = trigrams[i]; n++ }\<close>.
\<close>

definition dedupStep :: "nat \<Rightarrow> uint32 list \<times> nat \<Rightarrow> uint32 list \<times> nat" where
  "dedupStep i st =
     (case st of (trigrams, n) \<Rightarrow>
        if trigrams ! i \<noteq> trigrams ! (i - 1) then (trigrams[n := trigrams ! i], n + 1)
        else (trigrams, n))"

definition buildTrigrams :: "string \<Rightarrow> uint32 list" where
  "buildTrigrams s =
     (if length s < 3 then []
      else
        let trigrams = map (\<lambda>i. trigramHash (s ! i) (s ! (i + 1)) (s ! (i + 2))) [0..<length s - 2];
            trigrams = sort trigrams;
            (trigrams, n) = fold dedupStep [1..<length trigrams] (trigrams, 1)
        in take n trigrams)"

text \<open>
  The merge walk of \<open>jaccardSimilarity\<close>: the indices \<open>i\<close> and \<open>j\<close> of the source are the
  suffixes of \<open>a\<close> and \<open>b\<close> still to be read, the third argument is \<open>intersection\<close>.
\<close>

fun mergeWalk :: "uint32 list \<Rightarrow> uint32 list \<Rightarrow> nat \<Rightarrow> nat" where
  "mergeWalk (x # xs) (y # ys) intersection =
     (if x = y then mergeWalk xs ys (intersection + 1)
      else if x < y then mergeWalk xs (y # ys) intersection
      else mergeWalk (x # xs) ys intersection)"
| "mergeWalk _ _ intersection = intersection"

text \<open>
  The result is a \<open>float64\<close> in the source: the quotient of two integers, rounded once.
  The model keeps the exact quotient as a \<open>real\<close>. Rounding is monotone, and two
  different quotients of counts below \<open>2^26\<close> lie further apart than one rounding step,
  as \<open>7/10\<close> and such a quotient do; so on them the comparisons of \<open>Get\<close> come out in the
  model as they do in \<open>float64\<close>.
\<close>

definition jaccardSimilarity :: "uint32 list \<Rightarrow> uint32 list \<Rightarrow> real" where
  "jaccardSimilarity a b =
     (if length a = 0 \<and> length b = 0 then 1
      else
        let intersection = mergeWalk a b 0;
            union = int (length a) + int (length b) - int intersection
        in real intersection / real_of_int union)"


section \<open>Registries and the fan-out search (package skills, registry manager)\<close>

text \<open>
  A \<open>float64\<close> as far as Go's comparisons see it: \<open>NaN\<close>, one of the two infinities, or
  a finite value, read as the real number it denotes (the two zeros compare equal and
  are one value here).
\<close>

datatype float64 = NaN | NegInf | Fin real | PosInf

text \<open>Go's \<open><\<close> on \<open>float64\<close>: false as soon as one side is \<open>NaN\<close>.\<close>

fun fless :: "float64 \<Rightarrow> float64 \<Rightarrow> bool" where
  "fless NaN y = False"
| "fless x NaN = False"
| "fless PosInf y = False"
| "fless x NegInf = False"
| "fless NegInf y = True"
| "fless x PosInf = True"
| "fless (Fin x) (Fin y) = (x < y)"

record SearchResult =
  Score :: float64
  Slug :: string
  DisplayName :: string
  Summary :: string
  Version :: string
  RegistryName :: string

text \<open>
  Go \<open>error\<close> values: \<open>ErrorString m\<close> is an error with message \<open>m\<close> and nothing
  wrapped (\<open>fmt.Errorf\<close> without \<open>%w\<close>, or any error of a backend), \<open>WrapError m e\<close> is
  \<open>fmt.Errorf(m + "%w", e)\<close>.
\<close>

datatype error = ErrorString string | WrapError string error

text \<open>
  The part of the \<open>SkillRegistry\<close> interface that \<open>SearchAll\<close> uses. \<open>Search\<close> returns
  \<open>Inl err\<close> for \<open>(_, err)\<close> with \<open>err != nil\<close> and \<open>Inr results\<close> for \<open>(results, nil)\<close>.
\<close>

record SkillRegistry =
  Name :: string
  Search :: "string \<Rightarrow> int \<Rightarrow> error + SearchResult list"

record RegistryManager =
  registries :: "SkillRegistry list"
  maxConcurrent :: int

definition defaultMaxConcurrentSearches :: int where
  "defaultMaxConcurrentSearches = 2"

definition NewRegistryManager :: RegistryManager where
  "NewRegistryManager = \<lparr>registries = [], maxConcurrent = defaultMaxConcurrentSearches\<rparr>"

definition AddRegistry :: "RegistryManager \<Rightarrow> SkillRegistry \<Rightarrow> RegistryManager" where
  "AddRegistry rm r = rm\<lparr>registries := registries rm @ [r]\<rparr>"

text \<open>
  The inner loop of \<open>sortByScoreDesc\<close>,
  \<open>for j >= 0 && results[j].Score < key.Score { results[j+1] = results[j]; j-- }\<close>
  followed by \<open>results[j+1] = key\<close>. Every index it touches is in range, since
  \<open>-1 \<le> j < i < len(results)\<close>.
\<close>

function insertLoop :: "SearchResult \<Rightarrow> int \<Rightarrow> SearchResult list \<Rightarrow> SearchResult list" where
  "insertLoop key j results =
     (if j \<ge> 0 \<and> fless (Score (results ! nat j)) (Score key)
      then insertLoop key (j - 1) (results[nat (j + 1) := results ! nat j])
      else results[nat (j + 1) := key])"
  by pat_completeness auto
termination
  by (relation "measure (\<lambda>(key, j, results). nat (j + 1))") auto

declare insertLoop.simps [simp del]

definition sortByScoreDesc :: "SearchResult list \<Rightarrow> SearchResult list" where
  "sortByScoreDesc results =
     fold (\<lambda>i results. insertLoop (results ! i) (int i - 1) results) [1..<length results] results"

text \<open>The clamp of \<open>SearchAll\<close>: \<open>if limit > 0 && len(merged) > limit { merged = merged[:limit] }\<close>.\<close>

definition clampLimit :: "int \<Rightarrow> SearchResult list \<Rightarrow> SearchResult list" where
  "clampLimit limit merged =
     (if limit > 0 \<and> int (length merged) > limit then take (nat limit) merged else merged)"

text \<open>
  One unit of work of \<open>SearchAll\<close>: either the select takes \<open>ctx.Done()\<close> and the unit
  reports \<open>ctx.Err()\<close>, or it gets a slot and reports what the registry's \<open>Search\<close> returns.
\<close>

definition unitResult ::
  "error \<Rightarrow> SkillRegistry \<Rightarrow> bool \<Rightarrow> string \<Rightarrow> int \<Rightarrow> error + SearchResult list" where
  "unitResult ctxErr r cancelled query limit =
     (if cancelled then Inl ctxErr else Search r query limit)"

text \<open>
  The collector loop \<open>for rr := range resultsCh\<close>, over the outcomes in the order in which
  they arrive; the state is \<open>(merged, lastErr, anyRegistrySucceeded)\<close>.
\<close>

fun collect ::
  "(error + SearchResult list) list \<Rightarrow> SearchResult list \<times> error option \<times> bool
     \<Rightarrow> SearchResult list \<times> error option \<times> bool" where
  "collect [] st = st"
| "collect (rr # rest) (merged, lastErr, anyRegistrySucceeded) =
     (case rr of
        Inl err \<Rightarrow> collect rest (merged, Some err, anyRegistrySucceeded)
      | Inr results \<Rightarrow> collect rest (merged @ results, lastErr, True))"

text \<open>
  \<open>SearchAll\<close>. The goroutines make the call nondeterministic in two ways, and both are
  arguments of the model: \<open>sched\<close> lists the units in the order in which their outcomes
  reach the collector, each as the index of its registry in the snapshot and whether it
  was cancelled before it got a slot; \<open>ctxErr\<close> is \<open>ctx.Err()\<close>. The runtime delivers one
  outcome per registry, so \<open>map fst sched\<close> is a permutation of the indices.
\<close>

definition SearchAll ::
  "RegistryManager \<Rightarrow> (nat \<times> bool) list \<Rightarrow> error \<Rightarrow> string \<Rightarrow> int
     \<Rightarrow> error + SearchResult list" where
  "SearchAll rm sched ctxErr query limit =
     (let regs = registries rm in
      if length regs = 0 then Inl (ErrorString ''no registries configured'')
      else
        let arrivals = map (\<lambda>(i, cancelled). unitResult ctxErr (regs ! i) cancelled query limit) sched;
            (merged, lastErr, anyRegistrySucceeded) = collect arrivals ([], None, False)
        in if \<not> anyRegistrySucceeded \<and> lastErr \<noteq> None
           then Inl (WrapError ''all registries failed: '' (the lastErr))
           else Inr (clampLimit limit (sortByScoreDesc merged)))"

subsection \<open>The goroutines of \<open>SearchAll\<close>\<close>

text \<open>
  Where one unit of work of \<open>SearchAll\<close> stands: at the \<open>select\<close>; past
  \<open>sem <- struct{}{}\<close> with \<open>r.Search\<close> in flight; back from \<open>Search\<close> with its outcome,
  the deferred \<open><-sem\<close> still to run; or done.
\<close>

datatype unitState = AtSelect | Searching | Returned "error + SearchResult list" | Finished

text \<open>
  The state of one call: the number of tokens in the channel \<open>sem\<close>, which
  \<open>make(chan struct{}, rm.maxConcurrent)\<close> bounds, and the states of the units.
\<close>

record callState =
  sem :: nat
  units :: "unitState list"

definition initCall :: "RegistryManager \<Rightarrow> callState" where
  "initCall rm = \<lparr>sem = 0, units = replicate (length (registries rm)) AtSelect\<rparr>"

text \<open>
  The steps of the units, interleaved. A send on a channel goes through only while the
  channel holds fewer elements than its capacity; the receive of a unit that holds a
  token never blocks. A unit at the \<open>select\<close> may also take \<open>ctx.Done()\<close>. \<open>Search\<close>
  returns any outcome, a failure or a success. The deferred \<open><-sem\<close> runs after either,
  once the outcome is on \<open>resultsCh\<close>, which has room for every unit.
\<close>

inductive step :: "RegistryManager \<Rightarrow> callState \<Rightarrow> callState \<Rightarrow> bool" where
  acquire: "i < length (units s) \<Longrightarrow> units s ! i = AtSelect \<Longrightarrow> int (sem s) < maxConcurrent rm
            \<Longrightarrow> step rm s (s\<lparr>sem := sem s + 1, units := (units s)[i := Searching]\<rparr>)"
| cancelled: "i < length (units s) \<Longrightarrow> units s ! i = AtSelect
            \<Longrightarrow> step rm s (s\<lparr>units := (units s)[i := Finished]\<rparr>)"
| returned: "i < length (units s) \<Longrightarrow> units s ! i = Searching
            \<Longrightarrow> step rm s (s\<lparr>units := (units s)[i := Returned rr]\<rparr>)"
| release: "i < length (units s) \<Longrightarrow> units s ! i = Returned rr
            \<Longrightarrow> step rm s (s\<lparr>sem := sem s - 1, units := (units s)[i := Finished]\<rparr>)"

text \<open>The states that one call of \<open>SearchAll\<close> passes through.\<close>

inductive inCall :: "RegistryManager \<Rightarrow> callState \<Rightarrow> bool" where
  inCall_init: "inCall rm (initCall rm)"
| inCall_step: "inCall rm s \<Longrightarrow> step rm s s' \<Longrightarrow> inCall rm s'"

text \<open>A unit holds a slot from its send on \<open>sem\<close> to its deferred receive.\<close>

fun holdsSlot :: "unitState \<Rightarrow> bool" where
  "holdsSlot Searching = True"
| "holdsSlot (Returned rr) = True"
| "holdsSlot AtSelect = False"
| "holdsSlot Finished = False"

definition holding :: "callState \<Rightarrow> nat" where
  "holding s = length (filter holdsSlot (units s))"

definition inFlight :: "callState \<Rightarrow> nat" where
  "inFlight s = length (filter (\<lambda>u. u = Searching) (units s))"

section \<open>The search cache (package skills, search cache)\<close>

subsection \<open>Slices and their backing arrays\<close>

text \<open>
  A Go slice is a window on a backing array, and two slices may share one. The store
  maps the address of an array to its elements; \<open>nextFree\<close> is the first address not yet
  allocated. A slice is \<open>nil\<close> or the address of its array, the offset of its first
  element and its length.
\<close>

type_synonym addr = nat

record heap =
  arrays :: "addr \<Rightarrow> SearchResult list"
  nextFree :: addr

datatype slice = NilSlice | Slice addr nat nat

fun readSlice :: "heap \<Rightarrow> slice \<Rightarrow> SearchResult list" where
  "readSlice h NilSlice = []"
| "readSlice h (Slice a off n) = take n (drop off (arrays h a))"

text \<open>
  \<open>copyResults\<close>: \<open>nil\<close> stays \<open>nil\<close>; otherwise \<open>make\<close> allocates a new array and \<open>copy\<close>
  fills it with the elements of \<open>results\<close>.
\<close>

fun copyResults :: "heap \<Rightarrow> slice \<Rightarrow> slice \<times> heap" where
  "copyResults h NilSlice = (NilSlice, h)"
| "copyResults h (Slice a off n) =
     (let cp = nextFree h
      in (Slice cp 0 n,
          h\<lparr>arrays := (arrays h)(cp := readSlice h (Slice a off n)), nextFree := cp + 1\<rparr>))"

subsection \<open>Query normalization\<close>

text \<open>
  \<open>strings.TrimSpace\<close> and \<open>strings.ToLower\<close> belong to Go's library, not to this
  package. They are parameters of the model: what is proved of \<open>normalizeQuery\<close>, \<open>Put\<close>
  and \<open>Get\<close> holds for every pair of functions, hence for Go's, which trim Unicode white
  space, lower-case Unicode letters and may change the number of bytes of a string.
\<close>

record stringsLib =
  TrimSpace :: "string \<Rightarrow> string"
  ToLower :: "string \<Rightarrow> string"

definition normalizeQuery :: "stringsLib \<Rightarrow> string \<Rightarrow> string" where
  "normalizeQuery L q = ToLower L (TrimSpace L q)"

subsection \<open>The cache\<close>

text \<open>
  \<open>createdAt\<close> and the clock are readings of Go's monotonic clock and \<open>ttl\<close> is a
  \<open>time.Duration\<close>, all in nanoseconds.
\<close>

record cacheEntry =
  query :: string
  trigrams :: "uint32 list"
  results :: slice
  createdAt :: int

record SearchCache =
  entries :: "string \<rightharpoonup> cacheEntry"
  order :: "string list"
  maxEntries :: int
  ttl :: int

definition similarityThreshold :: real where
  "similarityThreshold = 0.7"

definition Minute :: int where
  "Minute = 60 * 1000000000"

definition NewSearchCache :: "int \<Rightarrow> int \<Rightarrow> SearchCache" where
  "NewSearchCache maxEntries0 ttl0 =
     (let maxEntries1 = (if maxEntries0 \<le> 0 then 50 else maxEntries0);
          ttl1 = (if ttl0 \<le> 0 then 5 * Minute else ttl0)
      in \<lparr>entries = Map.empty, order = [], maxEntries = maxEntries1, ttl = ttl1\<rparr>)"

text \<open>
  \<open>moveToEndLocked\<close>: the loop removes the first occurrence of \<open>key\<close> from the order and
  stops, which is \<open>remove1\<close>; then \<open>key\<close> is appended.
\<close>

definition moveToEndLocked :: "SearchCache \<Rightarrow> string \<Rightarrow> SearchCache" where
  "moveToEndLocked sc key = sc\<lparr>order := remove1 key (order sc) @ [key]\<rparr>"

text \<open>
  \<open>evictExpiredLocked\<close>: one pass over the order with the clock reading \<open>now\<close>; the state
  of the loop is the entry mapping and \<open>newOrder\<close>.
\<close>

definition evictStep ::
  "int \<Rightarrow> int \<Rightarrow> string \<Rightarrow> (string \<rightharpoonup> cacheEntry) \<times> string list
     \<Rightarrow> (string \<rightharpoonup> cacheEntry) \<times> string list" where
  "evictStep now ttl0 key st =
     (case st of (es, newOrder) \<Rightarrow>
        (case es key of
           None \<Rightarrow> (es(key := None), newOrder)
         | Some entry \<Rightarrow>
             if now - createdAt entry \<ge> ttl0 then (es(key := None), newOrder)
             else (es, newOrder @ [key])))"

definition evictExpiredLocked :: "SearchCache \<Rightarrow> int \<Rightarrow> SearchCache" where
  "evictExpiredLocked sc now =
     (case fold (evictStep now (ttl sc)) (order sc) (entries sc, []) of
        (es, newOrder) \<Rightarrow> sc\<lparr>entries := es, order := newOrder\<rparr>)"

text \<open>
  The loop \<open>for len(sc.entries) >= sc.maxEntries && len(sc.order) > 0\<close> of \<open>Put\<close>, which
  drops the head of the order and its entry.
\<close>

fun evictLRU ::
  "int \<Rightarrow> (string \<rightharpoonup> cacheEntry) \<Rightarrow> string list \<Rightarrow> (string \<rightharpoonup> cacheEntry) \<times> string list" where
  "evictLRU maxEntries0 es [] = (es, [])"
| "evictLRU maxEntries0 es (oldest # rest) =
     (if int (card (dom es)) \<ge> maxEntries0 then evictLRU maxEntries0 (es(oldest := None)) rest
      else (es, oldest # rest))"

text \<open>
  \<open>Put\<close> at the clock reading \<open>now\<close>. The call holds the lock throughout, and its clock
  readings are taken as one instant.
\<close>

definition Put :: "stringsLib \<Rightarrow> SearchCache \<Rightarrow> heap \<Rightarrow> int \<Rightarrow> string \<Rightarrow> slice \<Rightarrow> SearchCache \<times> heap" where
  "Put L sc h now query0 results0 =
     (let normalized = normalizeQuery L query0 in
      if normalized = [] then (sc, h)
      else
        let sc = evictExpiredLocked sc now in
        if entries sc normalized \<noteq> None then
          (case copyResults h results0 of
             (cp, h) \<Rightarrow>
               let sc = sc\<lparr>entries := (entries sc)(normalized \<mapsto>
                          \<lparr>query = normalized, trigrams = buildTrigrams normalized,
                           results = cp, createdAt = now\<rparr>)\<rparr>
               in (moveToEndLocked sc normalized, h))
        else
          (case evictLRU (maxEntries sc) (entries sc) (order sc) of
             (es, ord) \<Rightarrow>
               (case copyResults h results0 of
                  (cp, h) \<Rightarrow>
                    (sc\<lparr>entries := es(normalized \<mapsto>
                          \<lparr>query = normalized, trigrams = buildTrigrams normalized,
                           results = cp, createdAt = now\<rparr>),
                        order := ord @ [normalized]\<rparr>, h))))"

text \<open>
  One iteration of the similarity scan of \<open>Get\<close>; the state is \<open>(bestEntry, bestSim)\<close>.
  A key without an entry is passed over.
\<close>

definition scanStep ::
  "int \<Rightarrow> int \<Rightarrow> uint32 list \<Rightarrow> (string \<rightharpoonup> cacheEntry) \<Rightarrow> string
     \<Rightarrow> cacheEntry option \<times> real \<Rightarrow> cacheEntry option \<times> real" where
  "scanStep now ttl0 queryTrigrams es key st =
     (case st of (bestEntry, bestSim) \<Rightarrow>
        (case es key of
           None \<Rightarrow> (bestEntry, bestSim)
         | Some entry \<Rightarrow>
             if now - createdAt entry \<ge> ttl0 then (bestEntry, bestSim)
             else
               let sim = jaccardSimilarity queryTrigrams (trigrams entry)
               in if sim > bestSim then (Some entry, sim) else (bestEntry, bestSim)))"

text \<open>
  The second half of \<open>Get\<close>, the similarity match. Go visits the keys of a map in an order
  it does not specify: \<open>iter\<close> is the order in which \<open>range sc.entries\<close> visits them in
  this call.
\<close>

definition similarityMatch ::
  "SearchCache \<Rightarrow> heap \<Rightarrow> int \<Rightarrow> string list \<Rightarrow> string \<Rightarrow> (slice \<times> bool) \<times> SearchCache \<times> heap" where
  "similarityMatch sc h now iter normalized =
     (let queryTrigrams = buildTrigrams normalized in
      case fold (scanStep now (ttl sc) queryTrigrams (entries sc)) iter (None, 0) of
        (bestEntry, bestSim) \<Rightarrow>
          (case bestEntry of
             Some best \<Rightarrow>
               if bestSim \<ge> similarityThreshold then
                 (case copyResults h (results best) of
                    (cp, h') \<Rightarrow> ((cp, True), moveToEndLocked sc (query best), h'))
               else ((NilSlice, False), sc, h)
           | None \<Rightarrow> ((NilSlice, False), sc, h)))"

text \<open>
  \<open>Get\<close> at the clock reading \<open>now\<close>, returning \<open>(results, hit)\<close>, the cache and the store.
  The call holds the lock throughout, and its clock readings are taken as one instant.
\<close>

definition Get ::
  "stringsLib \<Rightarrow> SearchCache \<Rightarrow> heap \<Rightarrow> int \<Rightarrow> string list \<Rightarrow> string \<Rightarrow> (slice \<times> bool) \<times> SearchCache \<times> heap" where
  "Get L sc h now iter query0 =
     (let normalized = normalizeQuery L query0 in
      if normalized = [] then ((NilSlice, False), sc, h)
      else
        case entries sc normalized of
          Some entry \<Rightarrow>
            if now - createdAt entry < ttl sc then
              (case copyResults h (results entry) of
                 (cp, h') \<Rightarrow> ((cp, True), moveToEndLocked sc normalized, h'))
            else similarityMatch sc h now iter normalized
        | None \<Rightarrow> similarityMatch sc h now iter normalized)"

definition Len :: "SearchCache \<Rightarrow> int" where
  "Len sc = int (card (dom (entries sc)))"

section \<open>Notions used in the statements and the examples\<close>

text \<open>
  The hashes of all overlapping 3-byte windows of a string, as a set: what the
  specification says \<open>buildTrigrams\<close> holds.
\<close>

definition trigramWindows :: "string \<Rightarrow> uint32 set" where
  "trigramWindows s = {trigramHash (s ! i) (s ! (i + 1)) (s ! (i + 2)) | i. i + 2 < length s}"

text \<open>
  Inserting \<open>key\<close> into a list that holds a sorted prefix back to front: \<open>key\<close> passes the
  elements of smaller score and stops at the first one that is not smaller.
\<close>

fun insRev :: "SearchResult \<Rightarrow> SearchResult list \<Rightarrow> SearchResult list" where
  "insRev key [] = [key]"
| "insRev key (y # ys) = (if fless (Score y) (Score key) then y # insRev key ys else key # y # ys)"

text \<open>The results of the units that succeeded, concatenated in the order of arrival.\<close>

fun successes :: "(error + SearchResult list) list \<Rightarrow> SearchResult list" where
  "successes [] = []"
| "successes (Inl err # rest) = successes rest"
| "successes (Inr rs # rest) = rs @ successes rest"

text \<open>The outcomes of the units of one \<open>SearchAll\<close> call, in the order of arrival.\<close>

definition arrivals ::
  "RegistryManager \<Rightarrow> (nat \<times> bool) list \<Rightarrow> error \<Rightarrow> string \<Rightarrow> int
     \<Rightarrow> (error + SearchResult list) list" where
  "arrivals rm sched ctxErr q limit =
     map (\<lambda>(i, cancelled). unitResult ctxErr (registries rm ! i) cancelled q limit) sched"


text \<open>A result of a given score and slug, and one whose score is finite.\<close>

definition mkScored :: "float64 \<Rightarrow> string \<Rightarrow> SearchResult" where
  "mkScored score slug =
     \<lparr>Score = score, Slug = slug, DisplayName = [], Summary = [], Version = [], RegistryName = []\<rparr>"

definition mkResult :: "real \<Rightarrow> string \<Rightarrow> SearchResult" where
  "mkResult score slug = mkScored (Fin score) slug"

text \<open>
  Descending order of scores as Go's comparisons express it: of two results, the
  earlier one has the greater score or the same.
\<close>

definition descending :: "SearchResult list \<Rightarrow> bool" where
  "descending rs = sorted_wrt (\<lambda>a b. fless (Score b) (Score a) \<or> Score b = Score a) rs"

definition noNaN :: "SearchResult list \<Rightarrow> bool" where
  "noNaN rs = (\<forall>r \<in> set rs. Score r \<noteq> NaN)"

definition fixedRegistry :: "string \<Rightarrow> error + SearchResult list \<Rightarrow> SkillRegistry" where
  "fixedRegistry name outcome = \<lparr>Name = name, Search = (\<lambda>q limit. outcome)\<rparr>"

text \<open>An entry is live at \<open>now\<close> when its age is below the time to live.\<close>

definition live :: "int \<Rightarrow> int \<Rightarrow> cacheEntry \<Rightarrow> bool" where
  "live now ttl0 entry = (now - createdAt entry < ttl0)"

definition liveKey :: "int \<Rightarrow> int \<Rightarrow> (string \<rightharpoonup> cacheEntry) \<Rightarrow> string \<Rightarrow> bool" where
  "liveKey now ttl0 es k = (case es k of Some entry \<Rightarrow> live now ttl0 entry | None \<Rightarrow> False)"

text \<open>
  The invariant of the claim: at most \<open>maxEntries\<close> entries, and the order lists the keys of
  the mapping, each once.
\<close>

definition cacheInv :: "SearchCache \<Rightarrow> bool" where
  "cacheInv sc =
     (Len sc \<le> maxEntries sc \<and> set (order sc) = dom (entries sc) \<and> distinct (order sc))"

text \<open>
  Every entry is stored under its own query with the trigrams of that query, and the
  capacity is positive.
\<close>

definition keyed :: "SearchCache \<Rightarrow> bool" where
  "keyed sc =
     ((\<forall>k entry. entries sc k = Some entry \<longrightarrow>
          query entry = k \<and> trigrams entry = buildTrigrams k)
      \<and> 1 \<le> maxEntries sc)"

text \<open>The entry that \<open>Put\<close> stores.\<close>

definition newEntry :: "string \<Rightarrow> slice \<Rightarrow> int \<Rightarrow> cacheEntry" where
  "newEntry normalized cp now =
     \<lparr>query = normalized, trigrams = buildTrigrams normalized, results = cp, createdAt = now\<rparr>"

text \<open>The caches that \<open>NewSearchCache\<close>, \<open>Put\<close> and \<open>Get\<close> produce.\<close>

inductive reachable :: "stringsLib \<Rightarrow> SearchCache \<Rightarrow> bool" for L where
  reachable_New: "reachable L (NewSearchCache maxEntries0 ttl0)"
| reachable_Put: "reachable L sc \<Longrightarrow> reachable L (fst (Put L sc h now q res))"
| reachable_Get: "reachable L sc \<Longrightarrow> reachable L (fst (snd (Get L sc h now iter q)))"

text \<open>
  The two library functions as they act on strings of ASCII bytes, which are the
  strings of the examples: there \<open>strings.TrimSpace\<close> removes the leading and trailing
  bytes among tab, line feed, vertical tab, form feed, carriage return and space, and
  \<open>strings.ToLower\<close> maps \<open>A\<close> to \<open>Z\<close> to \<open>a\<close> to \<open>z\<close> and leaves every other byte. They
  stand for the library in the examples only; no general statement depends on them.
\<close>

definition isSpace :: "char \<Rightarrow> bool" where
  "isSpace c = ((of_char c :: nat) \<in> {9, 10, 11, 12, 13, 32})"

definition asciiTrimSpace :: "string \<Rightarrow> string" where
  "asciiTrimSpace s = rev (dropWhile isSpace (rev (dropWhile isSpace s)))"

definition toLowerByte :: "char \<Rightarrow> char" where
  "toLowerByte c =
     (if 65 \<le> (of_char c :: nat) \<and> (of_char c :: nat) \<le> 90
      then char_of ((of_char c :: nat) + 32) else c)"

definition asciiToLower :: "string \<Rightarrow> string" where
  "asciiToLower s = map toLowerByte s"

definition asciiStrings :: stringsLib where
  "asciiStrings = \<lparr>TrimSpace = asciiTrimSpace, ToLower = asciiToLower\<rparr>"

text \<open>The store before anything is allocated, and a slice literal of the caller.\<close>

definition emptyHeap :: heap where
  "emptyHeap = \<lparr>arrays = (\<lambda>a. []), nextFree = 0\<rparr>"

definition allocSlice :: "heap \<Rightarrow> SearchResult list \<Rightarrow> slice \<times> heap" where
  "allocSlice h xs =
     (Slice (nextFree h) 0 (length xs),
      h\<lparr>arrays := (arrays h)(nextFree h := xs), nextFree := nextFree h + 1\<rparr>)"

text \<open>
  The cache of the expiry test: a time to live of 50 ms and one \<open>Put\<close> at time 0.
\<close>

definition ttlScenario :: "SearchCache \<times> heap" where
  "ttlScenario =
     Put asciiStrings (NewSearchCache 10 50000000) (snd (allocSlice emptyHeap [mkResult 0.9 ''github''])) 0
       ''github integration'' (fst (allocSlice emptyHeap [mkResult 0.9 ''github'']))"

text \<open>
  A cache of capacity \<open>cap\<close> and time to live \<open>T\<close> whose recency order is \<open>ks\<close> and
  whose entries were all created at \<open>lo\<close> or later.
\<close>

definition shape :: "SearchCache \<Rightarrow> string list \<Rightarrow> int \<Rightarrow> int \<Rightarrow> int \<Rightarrow> bool" where
  "shape sc ks cap lo T =
     (order sc = ks \<and> distinct ks \<and> dom (entries sc) = set ks \<and> int (length ks) \<le> cap
      \<and> 1 \<le> cap \<and> maxEntries sc = cap \<and> ttl sc = T
      \<and> (\<forall>k entry. entries sc k = Some entry \<longrightarrow>
            query entry = k \<and> trigrams entry = buildTrigrams k \<and> lo \<le> createdAt entry))"

text \<open>
  The caches of the recency test: capacity 3, a time to live of one hour, \<open>Put\<close> of
  \<open>query-A\<close>, \<open>query-B\<close> and \<open>query-C\<close>, then \<open>Get\<close> of \<open>query-A\<close>.
\<close>

definition lruFilled :: "SearchCache \<times> heap" where
  "lruFilled =
     (case Put asciiStrings (NewSearchCache 3 (60 * Minute)) emptyHeap 0 ''query-A'' NilSlice of
        (scA, hA) \<Rightarrow>
          (case Put asciiStrings scA hA 1 ''query-B'' NilSlice of
             (scB, hB) \<Rightarrow> Put asciiStrings scB hB 2 ''query-C'' NilSlice))"

definition lruTouched :: "(slice \<times> bool) \<times> SearchCache \<times> heap" where
  "lruTouched =
     Get asciiStrings (fst lruFilled) (snd lruFilled) 3 [''query-b'', ''query-c'', ''query-a''] ''query-A''"

text \<open>
  The same calls on a cache with a time to live of 10 ns: \<open>Put\<close> of \<open>query-A\<close> at
  time 0, of \<open>query-B\<close> at 5 and of \<open>query-C\<close> at 6, then \<open>Get\<close> of \<open>query-A\<close> at 7.
\<close>

definition expiryFilled :: "SearchCache \<times> heap" where
  "expiryFilled =
     (case Put asciiStrings (NewSearchCache 3 10) emptyHeap 0 ''query-A'' NilSlice of
        (scA, hA) \<Rightarrow>
          (case Put asciiStrings scA hA 5 ''query-B'' NilSlice of
             (scB, hB) \<Rightarrow> Put asciiStrings scB hB 6 ''query-C'' NilSlice))"

definition expiryTouched :: "(slice \<times> bool) \<times> SearchCache \<times> heap" where
  "expiryTouched =
     Get asciiStrings (fst expiryFilled) (snd expiryFilled) 7
       [''query-b'', ''query-c'', ''query-a''] ''query-A''"

text \<open>A live entry without trigrams under key \<open>k\<close>.\<close>

definition shortLive :: "int \<Rightarrow> int \<Rightarrow> (string \<rightharpoonup> cacheEntry) \<Rightarrow> string \<Rightarrow> bool" where
  "shortLive now ttl0 es k =
     (case es k of Some entry \<Rightarrow> live now ttl0 entry \<and> trigrams entry = [] | None \<Rightarrow> False)"

text \<open>The results of the entry under key \<open>k\<close>, if there is one and it is live.\<close>

definition liveResults :: "SearchCache \<Rightarrow> heap \<Rightarrow> int \<Rightarrow> string \<Rightarrow> SearchResult list option" where
  "liveResults sc h now k =
     (case entries sc k of
        Some entry \<Rightarrow> if live now (ttl sc) entry then Some (readSlice h (results entry)) else None
      | None \<Rightarrow> None)"

text \<open>What the caller of \<open>Get\<close> sees: whether it hit, and the elements returned.\<close>

definition getResults ::
  "stringsLib \<Rightarrow> SearchCache \<Rightarrow> heap \<Rightarrow> int \<Rightarrow> string list \<Rightarrow> string \<Rightarrow> bool \<times> SearchResult list" where
  "getResults L sc h now iter q =
     (case Get L sc h now iter q of ((s, hit), sc', h') \<Rightarrow> (hit, readSlice h' s))"

text \<open>
  A cache with two live entries of short keys: \<open>Put("zz", R1)\<close> and \<open>Put("yy", R2)\<close> at
  time 0, with different results.
\<close>

definition shortScenario :: "SearchCache \<times> heap" where
  "shortScenario =
     (case allocSlice emptyHeap [mkResult 1 ''first''] of
        (R1, h1) \<Rightarrow>
          (case allocSlice h1 [mkResult 1 ''second''] of
             (R2, h2) \<Rightarrow>
               (case Put asciiStrings (NewSearchCache 10 0) h2 0 ''zz'' R1 of
                  (sc1, h3) \<Rightarrow> Put asciiStrings sc1 h3 0 ''yy'' R2)))"

text \<open>A cache with one entry of a short key: \<open>Put("zz", R)\<close> at time 0.\<close>

definition zzScenario :: "SearchCache \<times> heap" where
  "zzScenario =
     Put asciiStrings (NewSearchCache 10 0) (snd (allocSlice emptyHeap [mkResult 1 ''first''])) 0 ''zz''
       (fst (allocSlice emptyHeap [mkResult 1 ''first'']))"

text \<open>The array that a slice is a window on.\<close>

fun sliceArray :: "slice \<Rightarrow> addr set" where
  "sliceArray NilSlice = {}"
| "sliceArray (Slice a off n) = {a}"

text \<open>The arrays that the entries of the cache point to.\<close>

definition owned :: "SearchCache \<Rightarrow> addr set" where
  "owned sc = (\<Union>entry \<in> ran (entries sc). sliceArray (results entry))"

text \<open>The results that the cache stores, read out of the store.\<close>

definition stored :: "SearchCache \<Rightarrow> heap \<Rightarrow> string \<rightharpoonup> SearchResult list" where
  "stored sc h = (\<lambda>k. map_option (\<lambda>entry. readSlice h (results entry)) (entries sc k))"

text \<open>
  A write of the caller through one of its slices: the elements of the array at \<open>a\<close>
  change, in any way.
\<close>

definition writeArray :: "heap \<Rightarrow> addr \<Rightarrow> SearchResult list \<Rightarrow> heap" where
  "writeArray h a xs = h\<lparr>arrays := (arrays h)(a := xs)\<rparr>"

text \<open>
  The entry that \<open>Get\<close> hits, with the key that it moves to the end of the order; the
  store plays no part in the choice.
\<close>

definition hitEntry ::
  "stringsLib \<Rightarrow> SearchCache \<Rightarrow> int \<Rightarrow> string list \<Rightarrow> string \<Rightarrow> (string \<times> cacheEntry) option" where
  "hitEntry L sc now iter q =
     (let normalized = normalizeQuery L q;
          scanned =
            (case fold (scanStep now (ttl sc) (buildTrigrams normalized) (entries sc)) iter (None, 0) of
               (Some best, bestSim) \<Rightarrow>
                 if bestSim \<ge> similarityThreshold then Some (query best, best) else None
             | (None, bestSim) \<Rightarrow> None)
      in if normalized = [] then None
         else case entries sc normalized of
                Some entry \<Rightarrow>
                  if now - createdAt entry < ttl sc then Some (normalized, entry) else scanned
              | None \<Rightarrow> scanned)"

text \<open>
  A cache in use. \<open>run sc h A\<close>: the cache \<open>sc\<close> and the store \<open>h\<close> come from
  \<open>NewSearchCache\<close> by calls of \<open>Put\<close> and \<open>Get\<close> and by the caller allocating slices
  and writing through its slices, where \<open>A\<close> holds the arrays that the caller has a
  slice on: those that existed when the cache was made, those it allocated, and those
  of the slices that \<open>Get\<close> returned. The caller passes \<open>Put\<close> a slice on one of them.
\<close>

inductive run :: "stringsLib \<Rightarrow> SearchCache \<Rightarrow> heap \<Rightarrow> addr set \<Rightarrow> bool" for L where
  run_New: "run L (NewSearchCache maxEntries0 ttl0) h {a. a < nextFree h}"
| run_alloc: "run L sc h A \<Longrightarrow> allocSlice h xs = (s, h') \<Longrightarrow> run L sc h' (A \<union> sliceArray s)"
| run_write: "run L sc h A \<Longrightarrow> a \<in> A \<Longrightarrow> run L sc (writeArray h a xs) A"
| run_Put: "run L sc h A \<Longrightarrow> sliceArray res \<subseteq> A \<Longrightarrow> Put L sc h now q res = (sc', h')
            \<Longrightarrow> run L sc' h' A"
| run_Get: "run L sc h A \<Longrightarrow> Get L sc h now iter q = ((s, hit), sc', h')
            \<Longrightarrow> run L sc' h' (A \<union> sliceArray s)"

text \<open>
  The copy test: the caller's slice \<open>original\<close> holds one result and is passed to
  \<open>Put("test", original)\<close>.
\<close>

definition copyScenario :: "SearchCache \<times> heap" where
  "copyScenario =
     Put asciiStrings (NewSearchCache 10 (5 * Minute)) (snd (allocSlice emptyHeap [mkResult 0.9 ''github''])) 0
       ''test'' (fst (allocSlice emptyHeap [mkResult 0.9 ''github'']))"

text \<open>A manager with the default cap and three registries.\<close>

definition threeRegistries :: RegistryManager where
  "threeRegistries =
     AddRegistry (AddRegistry (AddRegistry NewRegistryManager
       (fixedRegistry ''B1'' (Inl (ErrorString ''timeout''))))
       (fixedRegistry ''B2'' (Inr [])))
       (fixedRegistry ''B3'' (Inr []))"

section \<open>Trigrams and Jaccard similarity\<close>

lemma mergeWalk_card:
  "sorted_wrt (<) a \<Longrightarrow> sorted_wrt (<) b \<Longrightarrow> mergeWalk a b n = n + card (set a \<inter> set b)"
proof (induction a b n rule: mergeWalk.induct)
  case (1 x xs y ys n)
  have dx: "x \<notin> set xs" and dy: "y \<notin> set ys" using 1 by auto
  show ?case
  proof (cases "x = y")
    case True
    have "set (x # xs) \<inter> set (y # ys) = insert x (set xs \<inter> set ys)"
      using True dx dy by auto
    moreover have "x \<notin> set xs \<inter> set ys" using dx by simp
    ultimately have "card (set (x # xs) \<inter> set (y # ys)) = Suc (card (set xs \<inter> set ys))"
      by simp
    with 1 True show ?thesis by simp
  next
    case False
    show ?thesis
    proof (cases "x < y")
      case True
      have "x \<notin> set (y # ys)" using True 1(5) by auto
      then have "set (x # xs) \<inter> set (y # ys) = set xs \<inter> set (y # ys)" by auto
      with 1 False True show ?thesis by simp
    next
      case F2: False
      then have "y < x" using False by simp
      then have "y \<notin> set (x # xs)" using 1(4) by auto
      then have "set (x # xs) \<inter> set (y # ys) = set (x # xs) \<inter> set ys" by auto
      with 1 False F2 show ?thesis by simp
    qed
  qed
qed simp_all

lemma jaccard_sets:
  assumes "sorted_wrt (<) a" "sorted_wrt (<) b"
  shows "jaccardSimilarity a b =
           (if a = [] \<and> b = [] then 1
            else real (card (set a \<inter> set b)) / real (card (set a \<union> set b)))"
proof -
  have da: "distinct a" and db: "distinct b"
    using assms by (simp_all add: strict_sorted_iff)
  have "card (set a \<union> set b) + card (set a \<inter> set b) = length a + length b"
    using card_Un_Int[of "set a" "set b"] distinct_card[OF da] distinct_card[OF db] by simp
  then have "real_of_int (int (length a) + int (length b) - int (card (set a \<inter> set b)))
               = real (card (set a \<union> set b))"
    by simp
  then show ?thesis
    unfolding jaccardSimilarity_def Let_def mergeWalk_card[OF assms, of 0]
    by simp
qed

text \<open>
  The in-place deduplication computes \<open>remdups_adj\<close>: after the indices below \<open>i\<close>, the
  first \<open>n\<close> cells hold the deduplicated prefix and the cells from \<open>i - 1\<close> on are untouched.
\<close>

lemma dedup_inv:
  assumes "1 \<le> i" "i \<le> length t" "1 \<le> n" "n \<le> i" "length u = length t"
    "take n u = remdups_adj (take i t)"
    "\<forall>j. i - 1 \<le> j \<and> j < length t \<longrightarrow> u ! j = t ! j"
  shows "(case fold dedupStep [i..<length t] (u, n) of (u', n') \<Rightarrow> take n' u') = remdups_adj t"
  using assms
proof (induction "length t - i" arbitrary: i u n)
  case 0
  then show ?case by simp
next
  case (Suc k)
  then have lt: "i < length t" by simp
  have upt: "[i..<length t] = i # [Suc i..<length t]" using lt by (simp add: upt_rec)
  have ui: "u ! i = t ! i" and ui1: "u ! (i - 1) = t ! (i - 1)"
    using Suc.prems lt by auto
  have tk1: "take i t = take (i - 1) t @ [t ! (i - 1)]"
    using lt Suc.prems(1) take_Suc_conv_app_nth[of "i - 1" t] by simp
  have tk: "take (Suc i) t = take (i - 1) t @ [t ! (i - 1), t ! i]"
    using lt tk1 by (simp add: take_Suc_conv_app_nth)
  show ?case
  proof (cases "t ! i \<noteq> t ! (i - 1)")
    case True
    let ?u = "u[n := t ! i]"
    have step: "dedupStep i (u, n) = (?u, n + 1)"
      using True ui ui1 by (simp add: dedupStep_def)
    have nlt: "n < length u" using Suc.prems lt by simp
    have "take (n + 1) ?u = take n u @ [t ! i]"
      using nlt by (simp add: take_Suc_conv_app_nth)
    also have "\<dots> = remdups_adj (take (Suc i) t)"
      using True Suc.prems(6) tk tk1 by (simp add: remdups_adj_append_two)
    finally have a: "take (n + 1) ?u = remdups_adj (take (Suc i) t)" .
    have b: "\<forall>j. Suc i - 1 \<le> j \<and> j < length t \<longrightarrow> ?u ! j = t ! j"
      using Suc.prems lt by (auto simp: nth_list_update)
    have "(case fold dedupStep [Suc i..<length t] (?u, n + 1) of (u', n') \<Rightarrow> take n' u')
            = remdups_adj t"
      using Suc.hyps(1)[of "Suc i" "n + 1" ?u] Suc.hyps(2) Suc.prems lt a b by simp
    then show ?thesis using upt step by simp
  next
    case False
    have step: "dedupStep i (u, n) = (u, n)"
      using False ui ui1 by (simp add: dedupStep_def)
    have a: "take n u = remdups_adj (take (Suc i) t)"
      using False Suc.prems(6) tk tk1 by (simp add: remdups_adj_append_two)
    have b: "\<forall>j. Suc i - 1 \<le> j \<and> j < length t \<longrightarrow> u ! j = t ! j"
      using Suc.prems lt by auto
    have "(case fold dedupStep [Suc i..<length t] (u, n) of (u', n') \<Rightarrow> take n' u')
            = remdups_adj t"
      using Suc.hyps(1)[of "Suc i" n u] Suc.hyps(2) Suc.prems lt a b by simp
    then show ?thesis using upt step by simp
  qed
qed

lemma dedup_loop:
  assumes "t \<noteq> []"
  shows "(case fold dedupStep [1..<length t] (t, 1) of (u', n') \<Rightarrow> take n' u') = remdups_adj t"
proof -
  have "take 1 t = remdups_adj (take 1 t)" using assms by (cases t) simp_all
  then show ?thesis using assms dedup_inv[of 1 t 1 t] by (cases t) simp_all
qed

lemma distinct_remdups_adj_sorted: "sorted xs \<Longrightarrow> distinct (remdups_adj xs)"
  by (induction xs rule: remdups_adj.induct) auto

lemma buildTrigrams_windows:
  "buildTrigrams s = (if length s < 3 then [] else sorted_list_of_set (trigramWindows s))"
proof (cases "length s < 3")
  case True
  then show ?thesis by (simp add: buildTrigrams_def)
next
  case False
  let ?w = "map (\<lambda>i. trigramHash (s ! i) (s ! (i + 1)) (s ! (i + 2))) [0..<length s - 2]"
  have ne: "sort ?w \<noteq> []" using False by (simp flip: length_0_conv)
  have "buildTrigrams s = remdups_adj (sort ?w)"
    using False dedup_loop[OF ne] by (simp add: buildTrigrams_def Let_def split: prod.splits)
  moreover have "set ?w = trigramWindows s"
    using False by (auto simp: trigramWindows_def image_iff)
  moreover have "sorted (remdups_adj (sort ?w))" "distinct (remdups_adj (sort ?w))"
    by (simp_all add: distinct_remdups_adj_sorted)
  ultimately show ?thesis
    using False sorted_list_of_set.idem_if_sorted_distinct[of "remdups_adj (sort ?w)"] by simp
qed

lemma buildTrigrams_strict_sorted: "sorted_wrt (<) (buildTrigrams s)"
  by (simp add: buildTrigrams_windows)

lemma buildTrigrams_short: "length s < 3 \<Longrightarrow> buildTrigrams s = []"
  by (simp add: buildTrigrams_def)

lemma jaccard_empty_empty: "jaccardSimilarity [] [] = 1"
  by (simp add: jaccardSimilarity_def)

lemma jaccard_empty_left: "jaccardSimilarity [] b = (if b = [] then 1 else 0)"
  by (cases b) (simp_all add: jaccardSimilarity_def)

text \<open>The packing loses nothing: the three bytes can be read back from the hash.\<close>

lemma take_bit_of_char_word: "take_bit 8 (of_char c :: uint32) = of_char c"
proof -
  have "take_bit 8 (of_nat (of_char c) :: uint32) = of_nat (take_bit 8 (of_char c :: nat))"
    by (simp only: take_bit_of_nat)
  moreover have "take_bit 8 (of_char c :: nat) = of_char c"
    by (simp add: take_bit_nat_eq_self)
  ultimately show ?thesis by (simp add: of_nat_of_char)
qed

lemma bit_of_char_word: "bit (of_char c :: uint32) n \<Longrightarrow> n < 8"
  using take_bit_of_char_word[of c] by (metis bit_take_bit_iff)

lemma unpack_low: "take_bit 8 (trigramHash a b c) = (of_char c :: uint32)"
  by (auto simp add: trigramHash_def bit_eq_iff bit_simps dest: bit_of_char_word)

lemma unpack_mid: "take_bit 8 (drop_bit 8 (trigramHash a b c)) = (of_char b :: uint32)"
  by (auto simp add: trigramHash_def bit_eq_iff bit_simps dest: bit_of_char_word)

lemma unpack_high: "drop_bit 16 (trigramHash a b c) = (of_char a :: uint32)"
  by (auto simp add: trigramHash_def bit_eq_iff bit_simps dest: bit_of_char_word)

lemma of_char_word_inj: "(of_char c :: uint32) = of_char d \<Longrightarrow> c = d"
proof -
  assume "(of_char c :: uint32) = of_char d"
  then have "(word_of_nat (of_char c) :: uint32) = word_of_nat (of_char d)"
    by (simp add: of_nat_of_char)
  then have "take_bit 32 (of_char c :: nat) = take_bit 32 (of_char d :: nat)"
    by (simp add: word_of_nat_eq_iff)
  moreover have "(of_char c :: nat) < 2 ^ 32" "(of_char d :: nat) < 2 ^ 32"
    by (rule order_less_trans[OF nat_of_char_less_256], simp)+
  ultimately have "(of_char c :: nat) = of_char d"
    by (simp add: take_bit_nat_eq_self)
  then show "c = d" by (rule of_char_eqI)
qed

lemma trigramHash_inj:
  "trigramHash a b c = trigramHash a' b' c' \<longleftrightarrow> a = a' \<and> b = b' \<and> c = c'"
proof
  assume e: "trigramHash a b c = trigramHash a' b' c'"
  have "(of_char c :: uint32) = of_char c'"
    using unpack_low[of a b c] unpack_low[of a' b' c'] e by simp
  moreover have "(of_char b :: uint32) = of_char b'"
    using unpack_mid[of a b c] unpack_mid[of a' b' c'] e by simp
  moreover have "(of_char a :: uint32) = of_char a'"
    using unpack_high[of a b c] unpack_high[of a' b' c'] e by simp
  ultimately show "a = a' \<and> b = b' \<and> c = c'"
    using of_char_word_inj by blast
qed simp

text \<open>
  Claim C7. \<open>buildTrigrams\<close> of a string shorter than 3 bytes is empty; otherwise it is
  the ascending list, without duplicates, of the hashes of all overlapping 3-byte
  windows, each hash packing the three bytes into one 32-bit value, different windows
  into different values; for \<open>hello\<close> these are the hashes of \<open>ell\<close>, \<open>hel\<close> and \<open>llo\<close>. On two trigram sets (strictly ascending
  lists) \<open>jaccardSimilarity\<close> is the size of the intersection over the size of the
  union; it is 1 on two empty sets and 0 on an empty and a non-empty one.
\<close>

theorem buildTrigrams_jaccard_spec:
  "buildTrigrams s = (if length s < 3 then [] else sorted_list_of_set (trigramWindows s))
   \<and> buildTrigrams ''hello''
       = [trigramHash CHR ''e'' CHR ''l'' CHR ''l'', trigramHash CHR ''h'' CHR ''e'' CHR ''l'',
          trigramHash CHR ''l'' CHR ''l'' CHR ''o'']
   \<and> (sorted_wrt (<) A \<and> sorted_wrt (<) B \<longrightarrow>
        jaccardSimilarity A B =
          (if A = [] \<and> B = [] then 1
           else real (card (set A \<inter> set B)) / real (card (set A \<union> set B))))
   \<and> jaccardSimilarity [] [] = 1
   \<and> (B \<noteq> [] \<longrightarrow> jaccardSimilarity [] B = 0 \<and> jaccardSimilarity B [] = 0)
   \<and> (trigramHash a b c = trigramHash a' b' c' \<longleftrightarrow> a = a' \<and> b = b' \<and> c = c')"
proof -
  have hello: "buildTrigrams ''hello''
       = [trigramHash CHR ''e'' CHR ''l'' CHR ''l'', trigramHash CHR ''h'' CHR ''e'' CHR ''l'',
          trigramHash CHR ''l'' CHR ''l'' CHR ''o'']"
    by (simp add: buildTrigrams_def trigramHash_def dedupStep_def upt_rec)
  have right: "B \<noteq> [] \<Longrightarrow> jaccardSimilarity B [] = 0"
    by (cases B) (simp_all add: jaccardSimilarity_def)
  show ?thesis
    using buildTrigrams_windows[of s] hello jaccard_sets[of A B] right
      trigramHash_inj[of a b c a' b' c']
    by (simp add: jaccard_empty_left)
qed


theorem buildTrigrams_jaccard_spec_witness:
  "sorted_wrt (<) (buildTrigrams ''hello'') \<and> sorted_wrt (<) (buildTrigrams ''help'')
   \<and> buildTrigrams ''help'' \<noteq> []
   \<and> jaccardSimilarity (buildTrigrams ''hello'') (buildTrigrams ''help'')
       = real (card (set (buildTrigrams ''hello'') \<inter> set (buildTrigrams ''help'')))
         / real (card (set (buildTrigrams ''hello'') \<union> set (buildTrigrams ''help'')))
   \<and> jaccardSimilarity (buildTrigrams ''hello'') (buildTrigrams ''help'') = 1 / 4
   \<and> jaccardSimilarity [] (buildTrigrams ''help'') = 0"
proof -
  let ?A = "buildTrigrams ''hello''" and ?B = "buildTrigrams ''help''"
  have a: "?A = [6646892, 6841708, 7105647]"
    by (simp add: buildTrigrams_def trigramHash_def dedupStep_def upt_rec)
  have b: "?B = [6646896, 6841708]"
    by (simp add: buildTrigrams_def trigramHash_def dedupStep_def upt_rec)
  have s: "sorted_wrt (<) ?A \<and> sorted_wrt (<) ?B"
    by (simp add: a b)
  have ne: "?B \<noteq> []" by (simp add: b)
  have j: "jaccardSimilarity ?A ?B = 1 / 4"
    by (simp add: a b jaccardSimilarity_def)
  have imp: "sorted_wrt (<) ?A \<and> sorted_wrt (<) ?B \<longrightarrow>
        jaccardSimilarity ?A ?B =
          (if ?A = [] \<and> ?B = [] then 1
           else real (card (set ?A \<inter> set ?B)) / real (card (set ?A \<union> set ?B)))"
    and z: "?B \<noteq> [] \<longrightarrow> jaccardSimilarity [] ?B = 0 \<and> jaccardSimilarity ?B [] = 0"
    using buildTrigrams_jaccard_spec[of "''hello''" ?A ?B] by blast+
  have e: "jaccardSimilarity ?A ?B
             = real (card (set ?A \<inter> set ?B)) / real (card (set ?A \<union> set ?B))"
    using imp s ne by (simp only: simp_thms if_False)
  show ?thesis using s ne e j z by blast
qed

section \<open>Sorting by score\<close>

lemma insertLoop_insRev:
  "length pre = nat (j + 1) \<Longrightarrow> j \<ge> -1 \<Longrightarrow>
   insertLoop key j (pre @ x # post) = rev (insRev key (rev pre)) @ post"
proof (induction pre arbitrary: j x post rule: rev_induct)
  case Nil
  then have "j = -1" by simp
  then show ?case by (simp add: insertLoop.simps)
next
  case (snoc y ys)
  then have j0: "j \<ge> 0" and l: "length ys = nat j" by auto
  have ynth: "(ys @ y # x # post) ! nat j = y" using l by (simp add: nth_append)
  show ?case
  proof (cases "fless (Score y) (Score key)")
    case True
    have upd: "(ys @ y # x # post)[nat (j + 1) := y] = ys @ y # y # post"
      using l j0 by (simp add: list_update_append nat_add_distrib)
    have "insertLoop key j (ys @ y # x # post) = insertLoop key (j - 1) (ys @ y # y # post)"
      using True j0 ynth upd by (subst insertLoop.simps) simp
    also have "\<dots> = rev (insRev key (rev ys)) @ y # post"
      using snoc.IH[of "j - 1" y "y # post"] l j0 by (simp add: nat_diff_distrib)
    finally show ?thesis using True by simp
  next
    case False
    have upd: "(ys @ y # x # post)[nat (j + 1) := key] = ys @ y # key # post"
      using l j0 by (simp add: list_update_append nat_add_distrib)
    have "insertLoop key j (ys @ y # x # post) = ys @ y # key # post"
      using False j0 ynth upd by (subst insertLoop.simps) simp
    then show ?thesis using False by simp
  qed
qed

lemma length_insRev: "length (insRev k ys) = Suc (length ys)"
  by (induction ys) auto

lemma mset_insRev: "mset (insRev k ys) = add_mset k (mset ys)"
  by (induction ys) auto

lemma set_insRev: "set (insRev k ys) = insert k (set ys)"
  by (induction ys) auto

lemma fless_irrefl [simp]: "\<not> fless x x"
  by (cases x) auto

lemma fless_trans: "fless a b \<Longrightarrow> fless b c \<Longrightarrow> fless a c"
  by (cases a; cases b; cases c) auto

lemma fless_total: "a \<noteq> NaN \<Longrightarrow> b \<noteq> NaN \<Longrightarrow> fless a b \<or> a = b \<or> fless b a"
  by (cases a; cases b) auto

lemma filter_insRev:
  "filter (\<lambda>r. Score r = s) (insRev k ys) = filter (\<lambda>r. Score r = s) (k # ys)"
  by (induction ys) auto

lemma sorted_insRev:
  assumes "sorted_wrt (\<lambda>a b. fless (Score a) (Score b) \<or> Score a = Score b) ys"
    and "Score k \<noteq> NaN" and "\<forall>y \<in> set ys. Score y \<noteq> NaN"
  shows "sorted_wrt (\<lambda>a b. fless (Score a) (Score b) \<or> Score a = Score b) (insRev k ys)"
  using assms
proof (induction ys)
  case Nil
  then show ?case by simp
next
  case (Cons y ys)
  show ?case
  proof (cases "fless (Score y) (Score k)")
    case True
    then show ?thesis using Cons by (auto simp: set_insRev)
  next
    case False
    have ky: "fless (Score k) (Score y) \<or> Score k = Score y"
      using False fless_total[of "Score k" "Score y"] Cons.prems by auto
    have "fless (Score k) (Score z) \<or> Score k = Score z" if "z \<in> set ys" for z
    proof -
      have "fless (Score y) (Score z) \<or> Score y = Score z" using Cons.prems(1) that by simp
      then show ?thesis using ky fless_trans by metis
    qed
    then show ?thesis using False ky Cons.prems(1) by simp
  qed
qed

lemma fold_insRev_mset: "mset (fold insRev rest acc) = mset rest + mset acc"
  by (induction rest arbitrary: acc) (simp_all add: mset_insRev)

lemma fold_insRev_filter:
  "filter (\<lambda>r. Score r = s) (rev (fold insRev rest acc))
     = filter (\<lambda>r. Score r = s) (rev acc @ rest)"
  by (induction rest arbitrary: acc) (simp_all add: filter_insRev flip: rev_filter)

lemma fold_insRev_sorted:
  assumes "sorted_wrt (\<lambda>a b. fless (Score a) (Score b) \<or> Score a = Score b) acc"
    and "\<forall>r \<in> set rest \<union> set acc. Score r \<noteq> NaN"
  shows "sorted_wrt (\<lambda>a b. fless (Score a) (Score b) \<or> Score a = Score b) (fold insRev rest acc)"
  using assms
proof (induction rest arbitrary: acc)
  case Nil
  then show ?case by simp
next
  case (Cons k rest)
  have "sorted_wrt (\<lambda>a b. fless (Score a) (Score b) \<or> Score a = Score b) (insRev k acc)"
    using sorted_insRev[of acc k] Cons.prems by simp
  moreover have "\<forall>r \<in> set rest \<union> set (insRev k acc). Score r \<noteq> NaN"
    using Cons.prems(2) by (auto simp: set_insRev)
  ultimately show ?case using Cons.IH[of "insRev k acc"] by simp
qed

lemma outer_loop:
  "fold (\<lambda>i results. insertLoop (results ! i) (int i - 1) results)
        [length pre..<length pre + length rest] (pre @ rest)
   = rev (fold insRev rest (rev pre))"
proof (induction rest arbitrary: pre)
  case Nil
  then show ?case by simp
next
  case (Cons k rest)
  have upt: "[length pre..<length pre + length (k # rest)]
             = length pre # [length (pre @ [k])..<length (pre @ [k]) + length rest]"
    by (simp add: upt_rec)
  have step: "insertLoop ((pre @ k # rest) ! length pre) (int (length pre) - 1) (pre @ k # rest)
              = rev (insRev k (rev pre)) @ rest"
    using insertLoop_insRev[of pre "int (length pre) - 1" k k rest] by simp
  have len: "length (rev (insRev k (rev pre))) = length (pre @ [k])"
    by (simp add: length_insRev)
  show ?case
    using Cons.IH[of "rev (insRev k (rev pre))"] step len
    by (simp only: upt fold_simps) simp
qed

lemma sortByScoreDesc_fold: "sortByScoreDesc xs = rev (fold insRev xs [])"
proof (cases xs)
  case Nil
  then show ?thesis by (simp add: sortByScoreDesc_def)
next
  case (Cons x rest)
  have "fold (\<lambda>i results. insertLoop (results ! i) (int i - 1) results)
        [length [x]..<length [x] + length rest] ([x] @ rest) = rev (fold insRev rest (rev [x]))"
    by (rule outer_loop)
  then show ?thesis using Cons by (simp add: sortByScoreDesc_def)
qed

lemma sortByScoreDesc_sorted: "noNaN xs \<Longrightarrow> descending (sortByScoreDesc xs)"
  using fold_insRev_sorted[of "[]" xs]
  by (simp add: sortByScoreDesc_fold sorted_wrt_rev noNaN_def descending_def)

lemma sortByScoreDesc_mset: "mset (sortByScoreDesc xs) = mset xs"
  by (simp add: sortByScoreDesc_fold fold_insRev_mset)

lemma sortByScoreDesc_stable:
  "filter (\<lambda>r. Score r = s) (sortByScoreDesc xs) = filter (\<lambda>r. Score r = s) xs"
  using fold_insRev_filter[of s xs "[]"] by (simp add: sortByScoreDesc_fold)

lemma clampLimit_prefix: "prefix (clampLimit limit xs) xs"
  by (simp add: clampLimit_def take_is_prefix)

lemma prefix_filter: "prefix xs ys \<Longrightarrow> prefix (filter P xs) (filter P ys)"
  by (auto simp: prefix_def)

lemma sorted_wrt_prefix: "prefix xs ys \<Longrightarrow> sorted_wrt R ys \<Longrightarrow> sorted_wrt R xs"
  by (auto simp: prefix_def sorted_wrt_append)

section \<open>The collector\<close>

lemma collect_merged:
  "fst (collect arr (merged, lastErr, anyS)) = merged @ successes arr"
  by (induction arr arbitrary: merged lastErr anyS) (auto split: sum.splits)



lemma SearchAll_unfold:
  assumes "registries rm \<noteq> []"
  shows "SearchAll rm sched ctxErr q limit =
    (let st = collect (arrivals rm sched ctxErr q limit) ([], None, False) in
     if \<not> snd (snd st) \<and> fst (snd st) \<noteq> None
     then Inl (WrapError ''all registries failed: '' (the (fst (snd st))))
     else Inr (clampLimit limit (sortByScoreDesc (fst st))))"
  using assms by (simp add: SearchAll_def arrivals_def Let_def split: prod.splits)




lemma SearchAll_Inr:
  assumes "SearchAll rm sched ctxErr q limit = Inr rs"
  shows "rs = clampLimit limit (sortByScoreDesc (successes (arrivals rm sched ctxErr q limit)))"
proof -
  have ne: "registries rm \<noteq> []" using assms by (auto simp: SearchAll_def)
  show ?thesis
    using assms collect_merged[of "arrivals rm sched ctxErr q limit" "[]" None False]
    by (auto simp: SearchAll_unfold[OF ne] Let_def split: if_splits)
qed


text \<open>
  Claim C6, as stated, at one registry whose three results have the scores \<open>1\<close>, \<open>NaN\<close>
  and \<open>2\<close>: the claim has the result sorted by score in descending order; the code
  leaves the three results where they are, the one of score \<open>1\<close> before the one of score
  \<open>2\<close>, since every comparison with \<open>NaN\<close> is false and stops the inner loop.
\<close>

theorem sortByScoreDesc_NaN_counterexample:
  "sortByScoreDesc [mkResult 1 ''a'', mkScored NaN ''b'', mkResult 2 ''c'']
     = [mkResult 1 ''a'', mkScored NaN ''b'', mkResult 2 ''c'']
   \<and> SearchAll
        (AddRegistry NewRegistryManager
          (fixedRegistry ''A'' (Inr [mkResult 1 ''a'', mkScored NaN ''b'', mkResult 2 ''c''])))
        [(0, False)] (ErrorString ''context canceled'') ''git'' 10
     = Inr [mkResult 1 ''a'', mkScored NaN ''b'', mkResult 2 ''c'']
   \<and> fless (Score (mkResult 1 ''a'')) (Score (mkResult 2 ''c''))
   \<and> \<not> descending [mkResult 1 ''a'', mkScored NaN ''b'', mkResult 2 ''c'']"
  by (simp add: SearchAll_def NewRegistryManager_def AddRegistry_def fixedRegistry_def
      unitResult_def sortByScoreDesc_def insertLoop.simps upt_rec clampLimit_def
      mkResult_def mkScored_def descending_def)

text \<open>
  Claim C6, amended. \<open>sortByScoreDesc\<close> permutes its argument and is stable, whatever the
  scores: the results of any one score keep their order. If no score is \<open>NaN\<close>, the
  result is sorted by score, descending. What \<open>SearchAll\<close> returns is a prefix of the
  sorted concatenation of the succeeding units' results: its results of equal score
  are in the order in which they were concatenated, and it is in descending order of
  score if no concatenated result has the score \<open>NaN\<close>.
\<close>

theorem sortByScoreDesc_stable_descending:
  "mset (sortByScoreDesc xs) = mset xs
   \<and> (\<forall>s. filter (\<lambda>r. Score r = s) (sortByScoreDesc xs) = filter (\<lambda>r. Score r = s) xs)
   \<and> (noNaN xs \<longrightarrow> descending (sortByScoreDesc xs))
   \<and> (SearchAll rm sched ctxErr q limit = Inr rs \<longrightarrow>
        prefix rs (sortByScoreDesc (successes (arrivals rm sched ctxErr q limit)))
        \<and> (noNaN (successes (arrivals rm sched ctxErr q limit)) \<longrightarrow> descending rs)
        \<and> (\<forall>s. prefix (filter (\<lambda>r. Score r = s) rs)
                       (filter (\<lambda>r. Score r = s) (successes (arrivals rm sched ctxErr q limit)))))"
proof -
  have "prefix rs (sortByScoreDesc (successes (arrivals rm sched ctxErr q limit)))
        \<and> (noNaN (successes (arrivals rm sched ctxErr q limit)) \<longrightarrow> descending rs)
        \<and> (\<forall>s. prefix (filter (\<lambda>r. Score r = s) rs)
                       (filter (\<lambda>r. Score r = s) (successes (arrivals rm sched ctxErr q limit))))"
    if "SearchAll rm sched ctxErr q limit = Inr rs"
  proof -
    let ?m = "successes (arrivals rm sched ctxErr q limit)"
    have p: "prefix rs (sortByScoreDesc ?m)"
      using SearchAll_Inr[OF that] clampLimit_prefix by simp
    have "prefix (filter (\<lambda>r. Score r = s) rs) (filter (\<lambda>r. Score r = s) ?m)" for s
      using prefix_filter[OF p, of "\<lambda>r. Score r = s"] by (simp add: sortByScoreDesc_stable)
    moreover have "descending rs" if "noNaN ?m"
      using sorted_wrt_prefix[OF p] sortByScoreDesc_sorted[OF that]
      by (simp add: descending_def)
    ultimately show ?thesis using p by blast
  qed
  then show ?thesis
    using sortByScoreDesc_sorted[of xs] sortByScoreDesc_mset[of xs] sortByScoreDesc_stable[of _ xs]
    by blast
qed

lemma example_two_registries:
  "SearchAll
     (AddRegistry (AddRegistry NewRegistryManager
        (fixedRegistry ''A'' (Inr [mkResult 0.5 ''a1'', mkResult 0.9 ''a2''])))
        (fixedRegistry ''B'' (Inr [mkResult 0.9 ''b1'', mkResult 0.5 ''b2''])))
     [(1, False), (0, False)] (ErrorString ''context canceled'') ''git'' 3
   = Inr [mkResult 0.9 ''b1'', mkResult 0.9 ''a2'', mkResult 0.5 ''b2'']"
  by (simp add: SearchAll_def NewRegistryManager_def AddRegistry_def fixedRegistry_def
      unitResult_def sortByScoreDesc_def insertLoop.simps upt_rec clampLimit_def
      mkResult_def mkScored_def)

lemma example_two_registries_noNaN:
  "noNaN (successes (arrivals
     (AddRegistry (AddRegistry NewRegistryManager
        (fixedRegistry ''A'' (Inr [mkResult 0.5 ''a1'', mkResult 0.9 ''a2''])))
        (fixedRegistry ''B'' (Inr [mkResult 0.9 ''b1'', mkResult 0.5 ''b2''])))
     [(1, False), (0, False)] (ErrorString ''context canceled'') ''git'' 3))"
  by (simp add: arrivals_def NewRegistryManager_def AddRegistry_def fixedRegistry_def
      unitResult_def noNaN_def mkResult_def mkScored_def)

theorem sortByScoreDesc_stable_descending_witness:
  "SearchAll
     (AddRegistry (AddRegistry NewRegistryManager
        (fixedRegistry ''A'' (Inr [mkResult 0.5 ''a1'', mkResult 0.9 ''a2''])))
        (fixedRegistry ''B'' (Inr [mkResult 0.9 ''b1'', mkResult 0.5 ''b2''])))
     [(1, False), (0, False)] (ErrorString ''context canceled'') ''git'' 3
   = Inr [mkResult 0.9 ''b1'', mkResult 0.9 ''a2'', mkResult 0.5 ''b2'']
   \<and> descending [mkResult 0.9 ''b1'', mkResult 0.9 ''a2'', mkResult 0.5 ''b2'']
   \<and> descending (sortByScoreDesc [mkResult 0.5 ''a1'', mkResult 0.9 ''a2''])"
proof -
  have n: "noNaN [mkResult 0.5 ''a1'', mkResult 0.9 ''a2'']"
    by (simp add: noNaN_def mkResult_def mkScored_def)
  show ?thesis
    using sortByScoreDesc_stable_descending[of "[mkResult 0.5 ''a1'', mkResult 0.9 ''a2'']"
      "AddRegistry (AddRegistry NewRegistryManager
        (fixedRegistry ''A'' (Inr [mkResult 0.5 ''a1'', mkResult 0.9 ''a2''])))
        (fixedRegistry ''B'' (Inr [mkResult 0.9 ''b1'', mkResult 0.5 ''b2'']))"
      "[(1, False), (0, False)]" "ErrorString ''context canceled''" "''git''" 3
      "[mkResult 0.9 ''b1'', mkResult 0.9 ''a2'', mkResult 0.5 ''b2'']"]
      example_two_registries example_two_registries_noNaN n
    by blast
qed


section \<open>Partial failure\<close>




section \<open>The cache: sweep, eviction and scan\<close>

lemma liveKey_upd_other:
  "\<not> liveKey now t es k \<Longrightarrow> liveKey now t (es(k := None)) k' = liveKey now t es k'"
  by (auto simp: liveKey_def)

lemma evictStep_fold:
  "fold (evictStep now t) ord (es, acc)
   = ((\<lambda>k. if k \<in> set ord \<and> \<not> liveKey now t es k then None else es k),
      acc @ filter (liveKey now t es) ord)"
proof (induction ord arbitrary: es acc)
  case Nil
  then show ?case by simp
next
  case (Cons k ord)
  show ?case
  proof (cases "liveKey now t es k")
    case True
    then have step: "evictStep now t k (es, acc) = (es, acc @ [k])"
      by (auto simp: evictStep_def liveKey_def live_def split: option.splits)
    show ?thesis using True by (auto simp: step Cons.IH)
  next
    case False
    then have step: "evictStep now t k (es, acc) = (es(k := None), acc)"
      by (auto simp: evictStep_def liveKey_def live_def split: option.splits)
    have lk: "liveKey now t (es(k := None)) = liveKey now t es"
      using liveKey_upd_other[OF False] by auto
    have F: "(\<lambda>k'. if k' \<in> set ord \<and> \<not> liveKey now t (es(k := None)) k' then None
                    else (es(k := None)) k')
             = (\<lambda>k'. if k' \<in> set (k # ord) \<and> \<not> liveKey now t es k' then None else es k')"
      unfolding lk using False by (auto simp: fun_eq_iff)
    have L: "acc @ filter (liveKey now t (es(k := None))) ord
             = acc @ filter (liveKey now t es) (k # ord)"
      unfolding lk using False by simp
    have "fold (evictStep now t) (k # ord) (es, acc)
          = fold (evictStep now t) ord (es(k := None), acc)"
      by (simp add: step)
    then show ?thesis unfolding Cons.IH F L .
  qed
qed

lemma entries_evictExpired:
  "entries (evictExpiredLocked sc now)
   = (\<lambda>k. if k \<in> set (order sc) \<and> \<not> liveKey now (ttl sc) (entries sc) k then None
           else entries sc k)"
  by (simp add: evictExpiredLocked_def evictStep_fold)

lemma order_evictExpired:
  "order (evictExpiredLocked sc now) = filter (liveKey now (ttl sc) (entries sc)) (order sc)"
  by (simp add: evictExpiredLocked_def evictStep_fold)

lemma params_evictExpired [simp]:
  "maxEntries (evictExpiredLocked sc now) = maxEntries sc"
  "ttl (evictExpiredLocked sc now) = ttl sc"
  by (simp_all add: evictExpiredLocked_def evictStep_fold)

lemma dom_evictExpired:
  "set (order sc) = dom (entries sc) \<Longrightarrow>
   dom (entries (evictExpiredLocked sc now)) = set (order (evictExpiredLocked sc now))"
  by (auto simp: entries_evictExpired order_evictExpired liveKey_def split: if_splits option.splits)

lemma evictExpired_live:
  "set (order sc) = dom (entries sc) \<Longrightarrow> entries (evictExpiredLocked sc now) k = Some entry \<Longrightarrow>
   live now (ttl sc) entry \<and> entries sc k = Some entry"
  by (auto simp: entries_evictExpired liveKey_def split: if_splits option.splits)

lemma evictExpired_sub:
  "entries (evictExpiredLocked sc now) k = Some entry \<Longrightarrow> entries sc k = Some entry"
  by (auto simp: entries_evictExpired split: if_splits)

lemma evictExpired_id:
  assumes "set (order sc) = dom (entries sc)"
    "\<forall>k entry. entries sc k = Some entry \<longrightarrow> live now (ttl sc) entry"
  shows "evictExpiredLocked sc now = sc"
proof -
  have lk: "\<And>k. k \<in> set (order sc) \<Longrightarrow> liveKey now (ttl sc) (entries sc) k"
    using assms by (auto simp: liveKey_def split: option.splits)
  have "entries (evictExpiredLocked sc now) = entries sc"
    using lk by (auto simp: entries_evictExpired fun_eq_iff)
  moreover have "order (evictExpiredLocked sc now) = order sc"
    using lk by (simp add: order_evictExpired)
  ultimately show ?thesis
    by (simp add: evictExpiredLocked_def evictStep_fold)
qed

lemma cacheInv_evictExpired:
  assumes "cacheInv sc"
  shows "cacheInv (evictExpiredLocked sc now)"
proof -
  let ?sc = "evictExpiredLocked sc now"
  have so: "set (order sc) = dom (entries sc)" and d: "distinct (order sc)"
    and le: "int (card (dom (entries sc))) \<le> maxEntries sc"
    using assms by (simp_all add: cacheInv_def Len_def)
  have dm: "dom (entries ?sc) = set (order ?sc)" using dom_evictExpired[OF so] .
  have "set (order ?sc) \<subseteq> set (order sc)" by (auto simp: order_evictExpired)
  then have "card (set (order ?sc)) \<le> card (set (order sc))"
    by (simp add: card_mono)
  then have "int (card (dom (entries ?sc))) \<le> maxEntries sc"
    using le dm so by simp
  moreover have "distinct (order ?sc)" using d by (simp add: order_evictExpired)
  ultimately show ?thesis using dm by (simp add: cacheInv_def Len_def)
qed

text \<open>The eviction loop of \<open>Put\<close>.\<close>

lemma evictLRU_below:
  "int (card (dom es)) < mx \<Longrightarrow> evictLRU mx es ord = (es, ord)"
  by (cases ord) auto

lemma evictLRU_inv:
  assumes "distinct ord" "set ord = dom es" "evictLRU mx es ord = (es', ord')" "1 \<le> mx"
  shows "distinct ord' \<and> set ord' = dom es' \<and> int (length ord') < mx \<and> suffix ord' ord
         \<and> (\<forall>k. es' k = (if k \<in> set ord' then es k else None))"
  using assms
proof (induction ord arbitrary: es)
  case Nil
  then show ?case by auto
next
  case (Cons k ord)
  have c: "card (dom es) = Suc (length ord)"
    using Cons.prems(1,2) distinct_card[of "k # ord"] by simp
  show ?case
  proof (cases "int (card (dom es)) \<ge> mx")
    case True
    then have rec: "evictLRU mx (es(k := None)) ord = (es', ord')"
      using Cons.prems(3) by simp
    have d: "distinct ord" and s: "set ord = dom (es(k := None))"
      using Cons.prems(1,2) by auto
    from Cons.IH[OF d s rec Cons.prems(4)]
    have ih1: "distinct ord'" and ih2: "set ord' = dom es'" and ih3: "int (length ord') < mx"
      and ih4: "suffix ord' ord"
      and ih5: "\<forall>k'. es' k' = (if k' \<in> set ord' then (es(k := None)) k' else None)"
      by blast+
    have "set ord' \<subseteq> set ord" using ih4 by (rule set_mono_suffix)
    then have "k \<notin> set ord'" using Cons.prems(1) by auto
    then have e: "\<forall>k'. es' k' = (if k' \<in> set ord' then es k' else None)"
      using ih5 by auto
    have "suffix ord' (k # ord)" using ih4 by (simp add: suffix_Cons)
    then show ?thesis using ih1 ih2 ih3 e by blast
  next
    case False
    then have "es' = es" "ord' = k # ord" using Cons.prems(3) by auto
    then show ?thesis using False c Cons.prems by (auto simp: domIff)
  qed
qed

lemma evictLRU_full:
  assumes "distinct ord" "set ord = dom es" "int (length ord) = mx" "ord \<noteq> []"
  shows "evictLRU mx es ord = (es(hd ord := None), tl ord)"
proof -
  obtain k rest where ord: "ord = k # rest" using assms(4) by (cases ord) auto
  have c: "card (dom es) = length ord" using assms(1,2) distinct_card[of ord] by simp
  have "dom (es(k := None)) = set rest"
    using assms(1,2) ord by auto
  then have "card (dom (es(k := None))) = length rest"
    using assms(1) ord distinct_card[of rest] by simp
  then have "evictLRU mx (es(k := None)) rest = (es(k := None), rest)"
    using assms(3) ord by (intro evictLRU_below) simp
  then show ?thesis using c assms(3) ord by simp
qed

text \<open>The similarity scan only ever picks a live entry of the mapping.\<close>

lemma scan_picks:
  assumes "fold (scanStep now t qt es) iter (b, s) = (b', s')"
  shows "b' = b \<or> (\<exists>k \<in> set iter. \<exists>entry. es k = Some entry \<and> b' = Some entry \<and> live now t entry)"
  using assms
proof (induction iter arbitrary: b s)
  case Nil
  then show ?case by simp
next
  case (Cons k iter)
  obtain b1 s1 where st: "scanStep now t qt es k (b, s) = (b1, s1)" by force
  have b1: "b1 = b \<or> (\<exists>entry. es k = Some entry \<and> b1 = Some entry \<and> live now t entry)"
    using st by (auto simp: scanStep_def live_def Let_def split: option.splits if_splits)
  have "fold (scanStep now t qt es) iter (b1, s1) = (b', s')"
    using Cons.prems st by simp
  from Cons.IH[OF this] b1 show ?case by auto
qed


section \<open>What \<open>Put\<close> and \<open>Get\<close> do to the cache\<close>

lemma Put_empty: "normalizeQuery L q = [] \<Longrightarrow> Put L sc h now q res = (sc, h)"
  by (simp add: Put_def)

lemma Put_heap:
  "normalizeQuery L q \<noteq> [] \<Longrightarrow> snd (Put L sc h now q res) = snd (copyResults h res)"
  by (simp add: Put_def Let_def split: prod.splits)

lemma Put_update:
  assumes "normalizeQuery L q = k" "k \<noteq> []" "entries (evictExpiredLocked sc now) k \<noteq> None"
  shows "fst (Put L sc h now q res)
         = (evictExpiredLocked sc now)
             \<lparr>entries := (entries (evictExpiredLocked sc now))
                           (k \<mapsto> newEntry k (fst (copyResults h res)) now),
              order := remove1 k (order (evictExpiredLocked sc now)) @ [k]\<rparr>"
  using assms
  by (auto simp add: Put_def Let_def newEntry_def moveToEndLocked_def split: prod.splits)

lemma Put_insert:
  assumes "normalizeQuery L q = k" "k \<noteq> []" "entries (evictExpiredLocked sc now) k = None"
    "evictLRU (maxEntries sc) (entries (evictExpiredLocked sc now))
       (order (evictExpiredLocked sc now)) = (es, ord)"
  shows "fst (Put L sc h now q res)
         = (evictExpiredLocked sc now)
             \<lparr>entries := es(k \<mapsto> newEntry k (fst (copyResults h res)) now),
              order := ord @ [k]\<rparr>"
  using assms
  by (auto simp add: Put_def Let_def newEntry_def split: prod.splits)

lemma Put_params [simp]:
  "maxEntries (fst (Put L sc h now q res)) = maxEntries sc"
  "ttl (fst (Put L sc h now q res)) = ttl sc"
  by (auto simp add: Put_def Let_def moveToEndLocked_def split: prod.splits)

lemma Put_stores:
  assumes "normalizeQuery L q = k" "k \<noteq> []"
  shows "entries (fst (Put L sc h now q res)) k = Some (newEntry k (fst (copyResults h res)) now)"
proof (cases "entries (evictExpiredLocked sc now) k")
  case None
  obtain es ord where ev: "evictLRU (maxEntries sc) (entries (evictExpiredLocked sc now))
       (order (evictExpiredLocked sc now)) = (es, ord)" by force
  show ?thesis by (simp add: Put_insert[OF assms None ev])
next
  case (Some e)
  then have "entries (evictExpiredLocked sc now) k \<noteq> None" by simp
  from Put_update[OF assms this] show ?thesis by simp
qed

lemma Put_inv:
  assumes "cacheInv sc" "keyed sc"
  shows "cacheInv (fst (Put L sc h now q res)) \<and> keyed (fst (Put L sc h now q res))"
proof (cases "normalizeQuery L q = []")
  case True
  then show ?thesis using assms by (simp add: Put_empty)
next
  case False
  let ?k = "normalizeQuery L q"
  let ?sc1 = "evictExpiredLocked sc now"
  let ?e = "newEntry ?k (fst (copyResults h res)) now"
  have inv1: "cacheInv ?sc1" using assms(1) by (rule cacheInv_evictExpired)
  have so: "set (order ?sc1) = dom (entries ?sc1)" and d: "distinct (order ?sc1)"
    and le: "int (card (dom (entries ?sc1))) \<le> maxEntries sc"
    using inv1 by (simp_all add: cacheInv_def Len_def)
  have mx: "1 \<le> maxEntries sc" using assms(2) by (simp add: keyed_def)
  have k1: "\<forall>k entry. entries ?sc1 k = Some entry \<longrightarrow>
              query entry = k \<and> trigrams entry = buildTrigrams k"
  proof (intro allI impI)
    fix k entry
    assume "entries ?sc1 k = Some entry"
    then have "entries sc k = Some entry" by (rule evictExpired_sub)
    then show "query entry = k \<and> trigrams entry = buildTrigrams k"
      using assms(2) by (simp add: keyed_def)
  qed
  have ke: "query ?e = ?k \<and> trigrams ?e = buildTrigrams ?k" by (simp add: newEntry_def)
  show ?thesis
  proof (cases "entries ?sc1 ?k")
    case (Some e0)
    then have ne: "entries ?sc1 ?k \<noteq> None" by simp
    have kin: "?k \<in> set (order ?sc1)" using Some so by auto
    have eq: "fst (Put L sc h now q res)
              = ?sc1\<lparr>entries := (entries ?sc1)(?k \<mapsto> ?e),
                      order := remove1 ?k (order ?sc1) @ [?k]\<rparr>"
      using Put_update[OF refl False ne] .
    have dm: "dom ((entries ?sc1)(?k \<mapsto> ?e)) = dom (entries ?sc1)" using Some by auto
    have "set (remove1 ?k (order ?sc1) @ [?k]) = set (order ?sc1)"
      using kin d by auto
    moreover have "distinct (remove1 ?k (order ?sc1) @ [?k])" using d by simp
    ultimately have "cacheInv (fst (Put L sc h now q res))"
      unfolding eq using so le dm by (simp add: cacheInv_def Len_def)
    moreover have "keyed (fst (Put L sc h now q res))"
      unfolding eq using k1 ke mx by (simp add: keyed_def)
    ultimately show ?thesis by simp
  next
    case None
    obtain es ord where ev: "evictLRU (maxEntries sc) (entries ?sc1) (order ?sc1) = (es, ord)"
      by force
    have eq: "fst (Put L sc h now q res) = ?sc1\<lparr>entries := es(?k \<mapsto> ?e), order := ord @ [?k]\<rparr>"
      using Put_insert[OF refl False None ev] .
    from evictLRU_inv[OF d so ev mx]
    have e1: "distinct ord" and e2: "set ord = dom es" and e3: "int (length ord) < maxEntries sc"
      and e4: "suffix ord (order ?sc1)"
      and e5: "\<forall>k. es k = (if k \<in> set ord then entries ?sc1 k else None)"
      by blast+
    have "set ord \<subseteq> set (order ?sc1)" using e4 by (rule set_mono_suffix)
    then have knot: "?k \<notin> set ord" using None so by auto
    have fin: "finite (dom es)" using e2 finite_set[of ord] by simp
    have "card (dom es) = length ord" using e1 e2 distinct_card[of ord] by simp
    moreover have "?k \<notin> dom es" using knot e2 by simp
    ultimately have "card (dom (es(?k \<mapsto> ?e))) = Suc (length ord)"
      using fin by simp
    then have "int (card (dom (es(?k \<mapsto> ?e)))) \<le> maxEntries sc" using e3 by simp
    then have "cacheInv (fst (Put L sc h now q res))"
      unfolding eq using e1 e2 knot by (simp add: cacheInv_def Len_def)
    moreover have "\<forall>k entry. es k = Some entry \<longrightarrow>
                     query entry = k \<and> trigrams entry = buildTrigrams k"
      using e5 k1 by (auto split: if_splits)
    then have "keyed (fst (Put L sc h now q res))"
      unfolding eq using ke mx by (simp add: keyed_def)
    ultimately show ?thesis by simp
  qed
qed

text \<open>
  The outcomes of \<open>Get\<close>: a miss that changes nothing, or a hit on a live entry of the
  mapping, whose key (or query) moves to the end of the order.
\<close>

lemma similarityMatch_cases:
  "similarityMatch sc h now iter k = ((NilSlice, False), sc, h)
   \<or> (\<exists>k' entry. k' \<in> set iter \<and> entries sc k' = Some entry \<and> live now (ttl sc) entry
        \<and> similarityMatch sc h now iter k
            = ((fst (copyResults h (results entry)), True),
               moveToEndLocked sc (query entry), snd (copyResults h (results entry))))"
proof -
  obtain b s where f: "fold (scanStep now (ttl sc) (buildTrigrams k) (entries sc)) iter (None, 0)
                        = (b, s)" by force
  show ?thesis
  proof (cases "b \<noteq> None \<and> s \<ge> similarityThreshold")
    case False
    then show ?thesis using f
      by (auto simp: similarityMatch_def Let_def split: option.splits)
  next
    case True
    then obtain entry where b: "b = Some entry" by auto
    from scan_picks[OF f] b
    obtain k' where "k' \<in> set iter" "entries sc k' = Some entry" "live now (ttl sc) entry"
      by auto
    then show ?thesis using f b True
      by (auto simp: similarityMatch_def Let_def split: prod.splits)
  qed
qed

lemma Get_cases:
  "Get L sc h now iter q = ((NilSlice, False), sc, h)
   \<or> (\<exists>k entry mk. entries sc k = Some entry \<and> live now (ttl sc) entry
        \<and> (k = normalizeQuery L q \<or> k \<in> set iter) \<and> (mk = k \<or> mk = query entry)
        \<and> Get L sc h now iter q
              = ((fst (copyResults h (results entry)), True),
                 moveToEndLocked sc mk, snd (copyResults h (results entry))))"
proof (cases "normalizeQuery L q = []")
  case True
  then show ?thesis by (simp add: Get_def)
next
  case False
  show ?thesis
  proof (cases "\<exists>entry. entries sc (normalizeQuery L q) = Some entry \<and> live now (ttl sc) entry")
    case True
    then obtain entry where e: "entries sc (normalizeQuery L q) = Some entry"
      "live now (ttl sc) entry" by auto
    then have "Get L sc h now iter q
              = ((fst (copyResults h (results entry)), True),
                 moveToEndLocked sc (normalizeQuery L q), snd (copyResults h (results entry)))"
      using False by (simp add: Get_def live_def split: prod.splits)
    then show ?thesis using e by blast
  next
    case F2: False
    then have g: "Get L sc h now iter q = similarityMatch sc h now iter (normalizeQuery L q)"
      using False by (auto simp: Get_def Let_def live_def split: option.splits)
    from similarityMatch_cases[of sc h now iter "normalizeQuery L q"]
    show ?thesis unfolding g by blast
  qed
qed

lemma Get_inv:
  assumes "cacheInv sc" "keyed sc"
  shows "cacheInv (fst (snd (Get L sc h now iter q))) \<and> keyed (fst (snd (Get L sc h now iter q)))"
proof -
  have mv: "cacheInv (moveToEndLocked sc k) \<and> keyed (moveToEndLocked sc k)"
    if "entries sc k = Some entry" for k entry
  proof -
    have "k \<in> set (order sc)" using that assms(1) by (auto simp: cacheInv_def)
    then have "set (remove1 k (order sc) @ [k]) = set (order sc)"
      using assms(1) by (auto simp: cacheInv_def)
    then show ?thesis
      using assms by (simp add: cacheInv_def keyed_def moveToEndLocked_def Len_def)
  qed
  have q: "query entry = k" if "entries sc k = Some entry" for k entry
    using that assms(2) by (simp add: keyed_def)
  from Get_cases[of L sc h now iter q]
  consider (miss) "Get L sc h now iter q = ((NilSlice, False), sc, h)"
    | (hit) k entry where "entries sc k = Some entry"
        "fst (snd (Get L sc h now iter q)) = moveToEndLocked sc k"
    using q by fastforce
  then show ?thesis
  proof cases
    case miss
    then show ?thesis using assms by simp
  next
    case (hit k entry)
    then show ?thesis using mv by simp
  qed
qed

lemma reachable_inv: "reachable L sc \<Longrightarrow> cacheInv sc \<and> keyed sc"
proof (induction rule: reachable.induct)
  case (reachable_New maxEntries0 ttl0)
  then show ?case by (simp add: NewSearchCache_def cacheInv_def keyed_def Len_def Let_def)
next
  case (reachable_Put sc h now q res)
  then show ?case using Put_inv by blast
next
  case (reachable_Get sc h now iter q)
  then show ?case using Get_inv by blast
qed

text \<open>
  Claim C2. Every cache that \<open>NewSearchCache\<close>, \<open>Put\<close> and \<open>Get\<close> produce has at most
  \<open>maxEntries\<close> entries, and its recency order holds exactly the keys of its entry
  mapping, each once; so has the cache after a further \<open>Put\<close> or \<open>Get\<close>. \<open>Len\<close> reads
  the number of entries, which is the length of the order, and leaves the cache as it is.
\<close>

theorem cache_invariant:
  "reachable L sc \<longrightarrow>
     Len sc \<le> maxEntries sc \<and> set (order sc) = dom (entries sc) \<and> distinct (order sc)
     \<and> Len sc = int (length (order sc))
     \<and> cacheInv (fst (Put L sc h now q res))
     \<and> cacheInv (fst (snd (Get L sc h now iter q)))"
proof
  assume r: "reachable L sc"
  then have "cacheInv sc" using reachable_inv by blast
  moreover have "cacheInv (fst (Put L sc h now q res))"
    using reachable_inv[OF reachable_Put[OF r]] by blast
  moreover have "cacheInv (fst (snd (Get L sc h now iter q)))"
    using reachable_inv[OF reachable_Get[OF r]] by blast
  ultimately show "Len sc \<le> maxEntries sc \<and> set (order sc) = dom (entries sc)
     \<and> distinct (order sc) \<and> Len sc = int (length (order sc))
     \<and> cacheInv (fst (Put L sc h now q res))
     \<and> cacheInv (fst (snd (Get L sc h now iter q)))"
    using distinct_card[of "order sc"] by (simp add: cacheInv_def Len_def)
qed

lemmas cache_eval =
  Put_def Get_def similarityMatch_def scanStep_def evictExpiredLocked_def evictStep_def
  moveToEndLocked_def NewSearchCache_def Minute_def Let_def emptyHeap_def allocSlice_def
  newEntry_def

lemma normalize_examples:
  "normalizeQuery asciiStrings ''query-A'' = ''query-a''" "normalizeQuery asciiStrings ''query-B'' = ''query-b''"
  "normalizeQuery asciiStrings ''query-C'' = ''query-c''" "normalizeQuery asciiStrings ''query-D'' = ''query-d''"
  "normalizeQuery asciiStrings ''GitHub Integration'' = ''github integration''"
  "normalizeQuery asciiStrings ''  github integration '' = ''github integration''"
  "normalizeQuery asciiStrings ''zz'' = ''zz''" "normalizeQuery asciiStrings ''yy'' = ''yy''"
  "normalizeQuery asciiStrings ''ab'' = ''ab''" "normalizeQuery asciiStrings ''test'' = ''test''"
  by code_simp+

theorem cache_invariant_witness:
  "reachable asciiStrings (fst (Put asciiStrings (NewSearchCache 3 0) emptyHeap 0 ''query-A'' NilSlice))
   \<and> order (fst (Put asciiStrings (NewSearchCache 3 0) emptyHeap 0 ''query-A'' NilSlice)) = [''query-a'']
   \<and> dom (entries (fst (Put asciiStrings (NewSearchCache 3 0) emptyHeap 0 ''query-A'' NilSlice)))
       = {''query-a''}
   \<and> Len (fst (Put asciiStrings (NewSearchCache 3 0) emptyHeap 0 ''query-A'' NilSlice)) \<le> 3"
proof -
  let ?sc = "fst (Put asciiStrings (NewSearchCache 3 0) emptyHeap 0 ''query-A'' NilSlice)"
  have r: "reachable asciiStrings ?sc" by (rule reachable_Put) (rule reachable_New)
  have o: "order ?sc = [''query-a'']" and m: "maxEntries ?sc = 3"
    by (simp_all add: cache_eval normalize_examples)
  have "Len ?sc \<le> maxEntries ?sc \<and> set (order ?sc) = dom (entries ?sc)"
    using cache_invariant[of asciiStrings ?sc] r by blast
  then show ?thesis using r o m by simp
qed

section \<open>Exact hits\<close>

lemma copyResults_read:
  "readSlice (snd (copyResults h s)) (fst (copyResults h s)) = readSlice h s"
  by (cases s) (simp_all add: Let_def)

lemma copyResults_nil: "fst (copyResults h s) = NilSlice \<longleftrightarrow> s = NilSlice"
  by (cases s) (simp_all add: Let_def)

lemma Get_exact:
  assumes "normalizeQuery L q = k" "k \<noteq> []" "entries sc k = Some entry" "live now (ttl sc) entry"
  shows "Get L sc h now iter q
         = ((fst (copyResults h (results entry)), True), moveToEndLocked sc k,
            snd (copyResults h (results entry)))"
  using assms by (simp add: Get_def live_def split: prod.splits)

text \<open>
  Claim C3. If the normalizations of \<open>q1\<close> and \<open>q2\<close> are equal and not empty, then
  \<open>Put(q2, R)\<close> at time \<open>t0\<close> followed by \<open>Get(q1)\<close> at a time \<open>t1\<close> before the time to live
  has elapsed is a hit, and the sequence returned holds the elements of \<open>R\<close>. The
  normalizations are those of the library \<open>L\<close>, which is arbitrary: the statement holds
  with Go's \<open>strings.TrimSpace\<close> and \<open>strings.ToLower\<close>.
\<close>

theorem put_then_get_hits:
  "normalizeQuery L q1 = normalizeQuery L q2 \<and> normalizeQuery L q2 \<noteq> [] \<and> t1 - t0 < ttl sc \<longrightarrow>
     (case Put L sc h t0 q2 R of
        (sc', h') \<Rightarrow>
          (case Get L sc' h' t1 iter q1 of
             ((s, hit), sc'', h'') \<Rightarrow>
               hit \<and> readSlice h'' s = readSlice h R \<and> (s = NilSlice \<longleftrightarrow> R = NilSlice)))"
proof
  assume a: "normalizeQuery L q1 = normalizeQuery L q2 \<and> normalizeQuery L q2 \<noteq> [] \<and> t1 - t0 < ttl sc"
  let ?k = "normalizeQuery L q2"
  let ?cp = "fst (copyResults h R)"
  obtain sc' h' where p: "Put L sc h t0 q2 R = (sc', h')" by force
  have h': "h' = snd (copyResults h R)"
    using a Put_heap[of L q2 sc h t0 R] p by simp
  have e: "entries sc' ?k = Some (newEntry ?k ?cp t0)"
    using a Put_stores[OF refl, where L=L and q=q2 and sc=sc and h=h and now=t0 and res=R] p by simp
  have "ttl sc' = ttl sc" using Put_params(2)[of L sc h t0 q2 R] p by simp
  then have l: "live t1 (ttl sc') (newEntry ?k ?cp t0)"
    using a by (simp add: live_def newEntry_def)
  have g: "Get L sc' h' t1 iter q1
         = ((fst (copyResults h' ?cp), True), moveToEndLocked sc' ?k, snd (copyResults h' ?cp))"
    using Get_exact[of L q1 ?k sc' "newEntry ?k ?cp t0" t1 h' iter] a e l
    by (simp add: newEntry_def)
  have "readSlice (snd (copyResults h' ?cp)) (fst (copyResults h' ?cp)) = readSlice h R"
    unfolding h' by (simp add: copyResults_read)
  moreover have "fst (copyResults h' ?cp) = NilSlice \<longleftrightarrow> R = NilSlice"
    by (simp add: copyResults_nil)
  ultimately show "case Put L sc h t0 q2 R of
        (sc', h') \<Rightarrow>
          (case Get L sc' h' t1 iter q1 of
             ((s, hit), sc'', h'') \<Rightarrow>
               hit \<and> readSlice h'' s = readSlice h R \<and> (s = NilSlice \<longleftrightarrow> R = NilSlice))"
    by (simp add: p g)
qed


theorem put_then_get_hits_witness:
  "normalizeQuery asciiStrings ''  github integration '' = normalizeQuery asciiStrings ''GitHub Integration''
   \<and> normalizeQuery asciiStrings ''GitHub Integration'' \<noteq> []
   \<and> (1000::int) - 0 < ttl (NewSearchCache 10 0)
   \<and> (case Put asciiStrings (NewSearchCache 10 0) (snd (allocSlice emptyHeap [mkResult 0.9 ''github''])) 0
              ''GitHub Integration'' (fst (allocSlice emptyHeap [mkResult 0.9 ''github''])) of
         (sc', h') \<Rightarrow>
           (case Get asciiStrings sc' h' 1000 [] ''  github integration '' of
              ((s, hit), sc'', h'') \<Rightarrow> hit \<and> readSlice h'' s = [mkResult 0.9 ''github'']))"
proof -
  let ?h = "snd (allocSlice emptyHeap [mkResult 0.9 ''github''])"
  let ?R = "fst (allocSlice emptyHeap [mkResult 0.9 ''github''])"
  have hyp: "normalizeQuery asciiStrings ''  github integration '' = normalizeQuery asciiStrings ''GitHub Integration''
     \<and> normalizeQuery asciiStrings ''GitHub Integration'' \<noteq> [] \<and> (1000::int) - 0 < ttl (NewSearchCache 10 0)"
    by (simp add: normalize_examples NewSearchCache_def Minute_def)
  have rd: "readSlice ?h ?R = [mkResult 0.9 ''github'']"
    by (simp add: allocSlice_def emptyHeap_def)
  from put_then_get_hits[of asciiStrings "''  github integration ''" "''GitHub Integration''" 1000 0
      "NewSearchCache 10 0" ?h ?R "[]", THEN mp, OF hyp]
  have "case Put asciiStrings (NewSearchCache 10 0) ?h 0 ''GitHub Integration'' ?R of
        (sc', h') \<Rightarrow>
          (case Get asciiStrings sc' h' 1000 [] ''  github integration '' of
             ((s, hit), sc'', h'') \<Rightarrow>
               hit \<and> readSlice h'' s = readSlice ?h ?R \<and> (s = NilSlice \<longleftrightarrow> ?R = NilSlice))" .
  then have "case Put asciiStrings (NewSearchCache 10 0) ?h 0 ''GitHub Integration'' ?R of
        (sc', h') \<Rightarrow>
          (case Get asciiStrings sc' h' 1000 [] ''  github integration '' of
             ((s, hit), sc'', h'') \<Rightarrow> hit \<and> readSlice h'' s = [mkResult 0.9 ''github''])"
    unfolding rd by (auto split: prod.splits)
  then show ?thesis using hyp by blast
qed

section \<open>Expired entries\<close>

lemma scan_all_expired:
  "\<forall>k \<in> set iter. \<forall>entry. es k = Some entry \<longrightarrow> t \<le> now - createdAt entry \<Longrightarrow>
   fold (scanStep now t qt es) iter st = st"
proof (induction iter arbitrary: st)
  case Nil
  then show ?case by simp
next
  case (Cons k iter)
  have "scanStep now t qt es k st = st"
    using Cons.prems by (cases st) (auto simp: scanStep_def split: option.splits)
  then show ?case using Cons by simp
qed

lemma Get_all_expired:
  assumes "\<forall>k entry. entries sc k = Some entry \<longrightarrow> ttl sc \<le> now - createdAt entry"
  shows "Get L sc h now iter q = ((NilSlice, False), sc, h)"
proof -
  have "fold (scanStep now (ttl sc) qt (entries sc)) iter (None, 0) = (None, 0)" for qt
    using assms by (intro scan_all_expired) auto
  then have "similarityMatch sc h now iter k = ((NilSlice, False), sc, h)" for k
    by (simp add: similarityMatch_def)
  then show ?thesis
    using assms by (fastforce simp: Get_def Let_def split: option.splits)
qed

lemma Get_hit_live:
  assumes "Get L sc h now iter q = ((s, True), sc', h')"
  shows "\<exists>k entry. entries sc k = Some entry \<and> now - createdAt entry < ttl sc
           \<and> readSlice h' s = readSlice h (results entry) \<and> entries sc' = entries sc"
proof -
  from Get_cases[of L sc h now iter q] assms
  obtain k entry mk where e: "entries sc k = Some entry" "live now (ttl sc) entry"
    and g: "Get L sc h now iter q
              = ((fst (copyResults h (results entry)), True),
                 moveToEndLocked sc mk, snd (copyResults h (results entry)))"
    by auto
  have "readSlice h' s = readSlice h (results entry)"
    using g assms copyResults_read[of h "results entry"] by simp
  moreover have "entries sc' = entries sc"
    using g assms by (auto simp: moveToEndLocked_def)
  ultimately show ?thesis using e by (auto simp: live_def)
qed

text \<open>
  Claim C5. A hit of \<open>Get\<close> returns the results of an entry of the mapping whose age is
  below the time to live. An exact match on an expired entry is no hit by itself: \<open>Get\<close>
  then is what the similarity match gives. The scan passes over an expired entry
  without a change. So \<open>Put(q, R)\<close> followed by \<open>Get(q)\<close> once the time to live has
  elapsed, every other entry of the cache being expired too, is a miss.
\<close>

theorem get_never_hits_expired:
  "(Get L sc h now iter q = ((s, True), sc', h') \<longrightarrow>
      (\<exists>k entry. entries sc k = Some entry \<and> now - createdAt entry < ttl sc
         \<and> readSlice h' s = readSlice h (results entry) \<and> entries sc' = entries sc))
   \<and> (normalizeQuery L q \<noteq> [] \<and> entries sc (normalizeQuery L q) = Some old
        \<and> ttl sc \<le> now - createdAt old \<longrightarrow>
        Get L sc h now iter q = similarityMatch sc h now iter (normalizeQuery L q))
   \<and> (entries sc k = Some old \<and> ttl sc \<le> now - createdAt old \<longrightarrow>
        scanStep now (ttl sc) qt (entries sc) k st = st)
   \<and> (normalizeQuery L q \<noteq> [] \<and> ttl sc \<le> t1 - t0
        \<and> (\<forall>k' e'. entries (fst (Put L sc h t0 q R)) k' = Some e' \<and> k' \<noteq> normalizeQuery L q
              \<longrightarrow> ttl sc \<le> t1 - createdAt e') \<longrightarrow>
        Get L (fst (Put L sc h t0 q R)) (snd (Put L sc h t0 q R)) t1 iter q
          = ((NilSlice, False), fst (Put L sc h t0 q R), snd (Put L sc h t0 q R)))"
proof (intro conjI impI)
  assume "Get L sc h now iter q = ((s, True), sc', h')"
  then show "\<exists>k entry. entries sc k = Some entry \<and> now - createdAt entry < ttl sc
         \<and> readSlice h' s = readSlice h (results entry) \<and> entries sc' = entries sc"
    by (rule Get_hit_live)
next
  assume "normalizeQuery L q \<noteq> [] \<and> entries sc (normalizeQuery L q) = Some old
        \<and> ttl sc \<le> now - createdAt old"
  then show "Get L sc h now iter q = similarityMatch sc h now iter (normalizeQuery L q)"
    by (simp add: Get_def)
next
  assume "entries sc k = Some old \<and> ttl sc \<le> now - createdAt old"
  then show "scanStep now (ttl sc) qt (entries sc) k st = st"
    by (cases st) (simp add: scanStep_def)
next
  let ?sc = "fst (Put L sc h t0 q R)"
  assume a: "normalizeQuery L q \<noteq> [] \<and> ttl sc \<le> t1 - t0
        \<and> (\<forall>k' e'. entries ?sc k' = Some e' \<and> k' \<noteq> normalizeQuery L q
              \<longrightarrow> ttl sc \<le> t1 - createdAt e')"
  have e: "entries ?sc (normalizeQuery L q)
           = Some (newEntry (normalizeQuery L q) (fst (copyResults h R)) t0)"
    using a Put_stores[OF refl, where L=L and q=q and sc=sc and h=h and now=t0 and res=R] by simp
  have "\<forall>k entry. entries ?sc k = Some entry \<longrightarrow> ttl ?sc \<le> t1 - createdAt entry"
  proof (intro allI impI)
    fix k entry
    assume k: "entries ?sc k = Some entry"
    show "ttl ?sc \<le> t1 - createdAt entry"
    proof (cases "k = normalizeQuery L q")
      case True
      then have "createdAt entry = t0" using k e by (auto simp: newEntry_def)
      then show ?thesis using a by simp
    next
      case False
      then show ?thesis using k a by simp
    qed
  qed
  then show "Get L ?sc (snd (Put L sc h t0 q R)) t1 iter q
          = ((NilSlice, False), ?sc, snd (Put L sc h t0 q R))"
    by (rule Get_all_expired)
qed


lemma normalize_github: "normalizeQuery asciiStrings ''github integration'' = ''github integration''"
  by code_simp

lemma ttlScenario_cache:
  "fst ttlScenario
   = \<lparr>entries = [''github integration'' \<mapsto> newEntry ''github integration'' (Slice 1 0 1) 0],
      order = [''github integration''], maxEntries = 10, ttl = 50000000\<rparr>"
  by (simp add: ttlScenario_def cache_eval normalize_github)

theorem get_never_hits_expired_witness:
  "Get asciiStrings (fst ttlScenario) (snd ttlScenario) 100000000 [''github integration'']
       ''github integration''
     = ((NilSlice, False), fst ttlScenario, snd ttlScenario)
   \<and> Get asciiStrings (fst ttlScenario) (snd ttlScenario) 100000000 [''github integration'']
       ''github integration''
     = similarityMatch (fst ttlScenario) (snd ttlScenario) 100000000 [''github integration'']
         ''github integration''
   \<and> scanStep 100000000 (ttl (fst ttlScenario)) [] (entries (fst ttlScenario))
        ''github integration'' (None, 0) = (None, 0)
   \<and> fst (Get asciiStrings (fst ttlScenario) (snd ttlScenario) 10000000 [''github integration'']
        ''github integration'') = (Slice 2 0 1, True)
   \<and> (\<exists>k entry. entries (fst ttlScenario) k = Some entry
         \<and> 10000000 - createdAt entry < ttl (fst ttlScenario))"
proof -
  let ?q = "''github integration''"
  let ?scN = "NewSearchCache 10 50000000"
  let ?h = "snd (allocSlice emptyHeap [mkResult 0.9 ''github''])"
  let ?R = "fst (allocSlice emptyHeap [mkResult 0.9 ''github''])"
  let ?old = "newEntry ?q (Slice 1 0 1) 0"
  have sc: "fst ttlScenario = fst (Put asciiStrings ?scN ?h 0 ?q ?R)" "snd ttlScenario = snd (Put asciiStrings ?scN ?h 0 ?q ?R)"
    by (simp_all add: ttlScenario_def)
  have t: "ttl ?scN = 50000000" by (simp add: NewSearchCache_def)
  have e: "entries (fst ttlScenario) ?q = Some ?old" "ttl (fst ttlScenario) = 50000000"
    by (simp_all add: ttlScenario_cache)
  have c: "createdAt ?old = 0" by (simp add: newEntry_def)
  have others: "\<forall>k' e'. entries (fst (Put asciiStrings ?scN ?h 0 ?q ?R)) k' = Some e' \<and> k' \<noteq> normalizeQuery asciiStrings ?q
              \<longrightarrow> ttl ?scN \<le> 100000000 - createdAt e'"
    unfolding sc(1)[symmetric] by (simp add: ttlScenario_cache normalize_github)
  have g: "Get asciiStrings (fst ttlScenario) (snd ttlScenario) 10000000 [?q] ?q
           = ((Slice 2 0 1, True), moveToEndLocked (fst ttlScenario) ?q,
              snd (copyResults (snd ttlScenario) (Slice 1 0 1)))"
    using Get_exact[of asciiStrings ?q ?q "fst ttlScenario" ?old 10000000 "snd ttlScenario" "[?q]"] e
    by (simp add: normalize_github live_def newEntry_def ttlScenario_def Put_heap
        allocSlice_def emptyHeap_def)
  note inst = get_never_hits_expired[where L=asciiStrings and sc="fst ttlScenario" and h="snd ttlScenario"
      and iter="[?q]" and q="?q"]
  have p4: "Get asciiStrings (fst ttlScenario) (snd ttlScenario) 100000000 [?q] ?q
     = ((NilSlice, False), fst ttlScenario, snd ttlScenario)"
    using get_never_hits_expired[where L=asciiStrings and sc="?scN" and h="?h" and q="?q" and ?t1.0=100000000
        and ?t0.0=0 and R="?R" and iter="[?q]"] others t
    unfolding sc[symmetric] by (simp add: normalize_github)
  have p2: "Get asciiStrings (fst ttlScenario) (snd ttlScenario) 100000000 [?q] ?q
     = similarityMatch (fst ttlScenario) (snd ttlScenario) 100000000 [?q] ?q"
    using inst[where now=100000000 and old="?old"] e c by (simp add: normalize_github)
  have p3: "scanStep 100000000 (ttl (fst ttlScenario)) [] (entries (fst ttlScenario))
        ?q (None, 0) = (None, 0)"
    using inst[where now=100000000 and old="?old" and k="?q" and qt="[]" and st="(None, 0)"] e c
    by simp
  have p1: "\<exists>k entry. entries (fst ttlScenario) k = Some entry
         \<and> 10000000 - createdAt entry < ttl (fst ttlScenario)"
    using inst[where now=10000000 and s="Slice 2 0 1"
        and sc'="moveToEndLocked (fst ttlScenario) ?q"
        and h'="snd (copyResults (snd ttlScenario) (Slice 1 0 1))"] g by blast
  show ?thesis using p1 p2 p3 p4 g by simp
qed

section \<open>Least recently used\<close>

lemma inv_length: "cacheInv sc \<Longrightarrow> Len sc = int (length (order sc))"
  using distinct_card[of "order sc"] by (simp add: cacheInv_def Len_def)

lemma Put_at_capacity:
  assumes "cacheInv sc" "keyed sc" "normalizeQuery L q = k" "k \<noteq> []"
    "entries (evictExpiredLocked sc now) k = None"
    "Len (evictExpiredLocked sc now) = maxEntries sc"
  shows "order (evictExpiredLocked sc now) \<noteq> []"
    and "fst (Put L sc h now q R)
         = (evictExpiredLocked sc now)
             \<lparr>entries := ((entries (evictExpiredLocked sc now))
                             (hd (order (evictExpiredLocked sc now)) := None))
                           (k \<mapsto> newEntry k (fst (copyResults h R)) now),
              order := tl (order (evictExpiredLocked sc now)) @ [k]\<rparr>"
    and "hd (order (evictExpiredLocked sc now)) \<notin> set (tl (order (evictExpiredLocked sc now)) @ [k])"
proof -
  let ?sc1 = "evictExpiredLocked sc now"
  have inv1: "cacheInv ?sc1" using assms(1) by (rule cacheInv_evictExpired)
  have so: "set (order ?sc1) = dom (entries ?sc1)" and d: "distinct (order ?sc1)"
    using inv1 by (simp_all add: cacheInv_def)
  have len: "int (length (order ?sc1)) = maxEntries sc"
    using inv_length[OF inv1] assms(6) by simp
  have "1 \<le> maxEntries sc" using assms(2) by (simp add: keyed_def)
  then show ne: "order ?sc1 \<noteq> []" using len by auto
  have ev: "evictLRU (maxEntries sc) (entries ?sc1) (order ?sc1)
            = ((entries ?sc1)(hd (order ?sc1) := None), tl (order ?sc1))"
    using evictLRU_full[OF d so len ne] .
  show "fst (Put L sc h now q R)
         = ?sc1\<lparr>entries := ((entries ?sc1)(hd (order ?sc1) := None))
                           (k \<mapsto> newEntry k (fst (copyResults h R)) now),
              order := tl (order ?sc1) @ [k]\<rparr>"
    using Put_insert[OF assms(3,4,5) ev] .
  have "hd (order ?sc1) \<in> set (order ?sc1)" using ne by simp
  then have "hd (order ?sc1) \<noteq> k" using assms(5) so by auto
  moreover have "hd (order ?sc1) \<notin> set (tl (order ?sc1))"
    using d ne by (cases "order ?sc1") auto
  ultimately show "hd (order ?sc1) \<notin> set (tl (order ?sc1) @ [k])" by simp
qed

lemma Put_below_capacity:
  assumes "cacheInv sc" "normalizeQuery L q = k" "k \<noteq> []"
    "entries (evictExpiredLocked sc now) k = None"
    "Len (evictExpiredLocked sc now) < maxEntries sc"
  shows "fst (Put L sc h now q R)
         = (evictExpiredLocked sc now)
             \<lparr>entries := (entries (evictExpiredLocked sc now))
                           (k \<mapsto> newEntry k (fst (copyResults h R)) now),
              order := order (evictExpiredLocked sc now) @ [k]\<rparr>"
proof -
  have "evictLRU (maxEntries sc) (entries (evictExpiredLocked sc now))
          (order (evictExpiredLocked sc now))
        = (entries (evictExpiredLocked sc now), order (evictExpiredLocked sc now))"
    using assms(5) by (intro evictLRU_below) (simp add: Len_def)
  from Put_insert[OF assms(2,3,4) this] show ?thesis .
qed

lemma Get_hit_moves:
  assumes "keyed sc" "Get L sc h now iter q = ((s, True), sc', h')"
  shows "\<exists>k entry. entries sc k = Some entry \<and> now - createdAt entry < ttl sc
           \<and> readSlice h' s = readSlice h (results entry)
           \<and> sc' = sc\<lparr>order := remove1 k (order sc) @ [k]\<rparr>"
proof -
  from Get_cases[of L sc h now iter q] assms(2)
  obtain k entry mk where e: "entries sc k = Some entry" "live now (ttl sc) entry"
    and mk: "mk = k \<or> mk = query entry"
    and g: "Get L sc h now iter q
              = ((fst (copyResults h (results entry)), True),
                 moveToEndLocked sc mk, snd (copyResults h (results entry)))"
    by auto
  have "mk = k" using mk e(1) assms(1) by (auto simp: keyed_def)
  then have "sc' = sc\<lparr>order := remove1 k (order sc) @ [k]\<rparr>"
    using g assms(2) by (simp add: moveToEndLocked_def)
  moreover have "readSlice h' s = readSlice h (results entry)"
    using g assms(2) copyResults_read[of h "results entry"] by simp
  ultimately show ?thesis using e by (auto simp: live_def)
qed


lemma shape_inv: "shape sc ks cap lo T \<Longrightarrow> cacheInv sc \<and> keyed sc"
  using distinct_card[of ks] by (auto simp: shape_def cacheInv_def keyed_def Len_def)

lemma shape_live:
  assumes "shape sc ks cap lo T" "now - lo < T"
  shows "\<forall>k entry. entries sc k = Some entry \<longrightarrow> live now (ttl sc) entry"
proof (intro allI impI)
  fix k entry
  assume "entries sc k = Some entry"
  then have "lo \<le> createdAt entry" and "ttl sc = T" using assms(1) by (auto simp: shape_def)
  then show "live now (ttl sc) entry" using assms(2) by (simp add: live_def)
qed

lemma shape_Put_new:
  assumes "shape sc ks cap lo T" "lo \<le> now" "now - lo < T"
    "normalizeQuery L q = k" "k \<noteq> []" "k \<notin> set ks"
  shows "shape (fst (Put L sc h now q R)) ((if int (length ks) = cap then tl ks else ks) @ [k])
           cap lo T"
proof -
  have inv: "cacheInv sc" "keyed sc" using shape_inv[OF assms(1)] by simp_all
  have so: "set (order sc) = dom (entries sc)" using inv(1) by (simp add: cacheInv_def)
  have id: "evictExpiredLocked sc now = sc"
    using evictExpired_id[OF so shape_live[OF assms(1,3)]] .
  have none: "entries sc k = None" using assms(1,6) by (auto simp: shape_def)
  have len: "Len sc = int (length ks)" using inv_length[OF inv(1)] assms(1) by (simp add: shape_def)
  have mx: "maxEntries sc = cap" and o: "order sc = ks" and d: "distinct ks"
    and dm: "dom (entries sc) = set ks"
    using assms(1) by (simp_all add: shape_def)
  let ?e = "newEntry k (fst (copyResults h R)) now"
  have ke: "query ?e = k \<and> trigrams ?e = buildTrigrams k \<and> lo \<le> createdAt ?e"
    using assms(2) by (simp add: newEntry_def)
  show ?thesis
  proof (cases "int (length ks) = cap")
    case True
    have p: "fst (Put L sc h now q R)
             = sc\<lparr>entries := ((entries sc)(hd ks := None))(k \<mapsto> ?e), order := tl ks @ [k]\<rparr>"
      using Put_at_capacity(2)[OF inv assms(4,5), where now=now and h=h and R=R]
        none len mx True o
      by (simp add: id)
    have ne: "ks \<noteq> []"
      using Put_at_capacity(1)[OF inv assms(4,5), where now=now] none len mx True o
      by (simp add: id)
    have dk: "distinct (tl ks @ [k])" using d assms(6) ne
      by (cases ks) auto
    have "dom (((entries sc)(hd ks := None))(k \<mapsto> ?e)) = set (tl ks @ [k])"
      using dm d ne by (cases ks) auto
    moreover have "int (length (tl ks @ [k])) \<le> cap" using True ne by (cases ks) auto
    ultimately show ?thesis
      unfolding p using True assms(1) dk ke
      by (auto simp: shape_def split: if_splits)
  next
    case False
    then have lt: "Len (evictExpiredLocked sc now) < maxEntries sc"
      using len mx assms(1) by (simp add: id shape_def)
    have p: "fst (Put L sc h now q R) = sc\<lparr>entries := (entries sc)(k \<mapsto> ?e), order := ks @ [k]\<rparr>"
      using Put_below_capacity[OF inv(1) assms(4,5) _ lt, where h=h and R=R] none o
      by (simp add: id)
    have "int (length (ks @ [k])) \<le> cap" using False assms(1) by (simp add: shape_def)
    then show ?thesis
      unfolding p using False assms(1,6) ke
      by (auto simp: shape_def split: if_splits)
  qed
qed

lemma shape_Get_exact:
  assumes "shape sc ks cap lo T" "now - lo < T" "normalizeQuery L q = k" "k \<noteq> []" "k \<in> set ks"
  shows "snd (fst (Get L sc h now iter q))"
    and "shape (fst (snd (Get L sc h now iter q))) (remove1 k ks @ [k]) cap lo T"
proof -
  have "k \<in> dom (entries sc)" using assms(1,5) by (simp add: shape_def)
  then obtain entry where e: "entries sc k = Some entry" by blast
  have l: "live now (ttl sc) entry" using shape_live[OF assms(1,2)] e by blast
  have g: "Get L sc h now iter q
         = ((fst (copyResults h (results entry)), True), moveToEndLocked sc k,
            snd (copyResults h (results entry)))"
    using Get_exact[OF assms(3,4) e l] .
  show "snd (fst (Get L sc h now iter q))" by (simp add: g)
  have "set (remove1 k ks @ [k]) = set ks" using assms(1,5) by (auto simp: shape_def)
  moreover have "length (remove1 k ks @ [k]) = length ks"
  proof -
    have "0 < length ks" using assms(5) by (cases ks) auto
    then show ?thesis using assms(5) by (simp add: length_remove1)
  qed
  ultimately show "shape (fst (snd (Get L sc h now iter q))) (remove1 k ks @ [k]) cap lo T"
    using assms(1) by (simp add: g moveToEndLocked_def shape_def)
qed

lemma shape_New: "0 < cap \<Longrightarrow> shape (NewSearchCache cap T0) [] cap lo (ttl (NewSearchCache cap T0))"
  by (simp add: shape_def NewSearchCache_def Let_def)

lemma lru_scenario:
  assumes n: "normalizeQuery L qa = a" "normalizeQuery L qb = b" "normalizeQuery L qc = c"
      "normalizeQuery L qd = d"
    and dist: "distinct [a, b, c, d]" and ne: "[] \<notin> set [a, b, c, d]"
    and t: "t1 \<le> t2" "t2 \<le> t3" "t3 \<le> t4" "t4 \<le> t5" "t5 - t1 < ttl (NewSearchCache 3 T0)"
  shows "case Put L (NewSearchCache 3 T0) h0 t1 qa Ra of
           (scA, hA) \<Rightarrow> (case Put L scA hA t2 qb Rb of
           (scB, hB) \<Rightarrow> (case Put L scB hB t3 qc Rc of
           (scC, hC) \<Rightarrow> (case Get L scC hC t4 iter qa of
           ((s, hit), scG, hG) \<Rightarrow> (case Put L scG hG t5 qd Rd of
           (scD, hD) \<Rightarrow> hit \<and> order scD = [c, a, d] \<and> dom (entries scD) = {a, c, d}
                          \<and> entries scD b = None))))"
proof -
  let ?T = "ttl (NewSearchCache 3 T0)"
  obtain scA hA where pA: "Put L (NewSearchCache 3 T0) h0 t1 qa Ra = (scA, hA)" by force
  obtain scB hB where pB: "Put L scA hA t2 qb Rb = (scB, hB)" by force
  obtain scC hC where pC: "Put L scB hB t3 qc Rc = (scC, hC)" by force
  obtain s hit scG hG where pG: "Get L scC hC t4 iter qa = ((s, hit), scG, hG)"
    by (metis prod.exhaust)
  obtain scD hD where pD: "Put L scG hG t5 qd Rd = (scD, hD)" by force
  have ne': "a \<noteq> []" "b \<noteq> []" "c \<noteq> []" "d \<noteq> []" using ne by auto
  have dist': "b \<noteq> a" "c \<noteq> a" "c \<noteq> b" "d \<noteq> a" "d \<noteq> b" "d \<noteq> c"
    using dist by auto
  have s0: "shape (NewSearchCache 3 T0) [] 3 t1 ?T" by (rule shape_New) simp
  have sA: "shape scA [a] 3 t1 ?T"
    using shape_Put_new[OF s0, where L=L and now=t1 and q=qa and k=a and h=h0 and R=Ra] n ne' t pA
    by simp
  have sB: "shape scB [a, b] 3 t1 ?T"
    using shape_Put_new[OF sA, where L=L and now=t2 and q=qb and k=b and h=hA and R=Rb] n ne' t dist dist' pB
    by simp
  have sC: "shape scC [a, b, c] 3 t1 ?T"
    using shape_Put_new[OF sB, where L=L and now=t3 and q=qc and k=c and h=hB and R=Rc] n ne' t dist dist' pC
    by simp
  have hitG: "hit" and sG: "shape scG [b, c, a] 3 t1 ?T"
    using shape_Get_exact[OF sC, where L=L and now=t4 and q=qa and k=a and h=hC and iter=iter]
      n ne' t dist dist' pG
    by simp_all
  have sD: "shape scD [c, a, d] 3 t1 ?T"
    using shape_Put_new[OF sG, where L=L and now=t5 and q=qd and k=d and h=hG and R=Rd] n ne' t dist dist' pD
    by simp
  have "order scD = [c, a, d]" and dm: "dom (entries scD) = {a, c, d}"
    using sD by (auto simp: shape_def)
  moreover have "entries scD b = None" using dm dist by (auto simp: domIff)
  ultimately show ?thesis using hitG by (simp add: pA pB pC pG pD)
qed


lemma expiryFilled_cache:
  "fst expiryFilled
   = \<lparr>entries = [''query-a'' \<mapsto> newEntry ''query-a'' NilSlice 0,
                  ''query-b'' \<mapsto> newEntry ''query-b'' NilSlice 5,
                  ''query-c'' \<mapsto> newEntry ''query-c'' NilSlice 6],
      order = [''query-a'', ''query-b'', ''query-c''], maxEntries = 3, ttl = 10\<rparr>"
  "snd expiryFilled = emptyHeap"
  by (simp_all add: expiryFilled_def cache_eval normalize_examples)

lemma expiryTouched_eval:
  "expiryTouched
   = ((NilSlice, True),
      \<lparr>entries = [''query-a'' \<mapsto> newEntry ''query-a'' NilSlice 0,
                  ''query-b'' \<mapsto> newEntry ''query-b'' NilSlice 5,
                  ''query-c'' \<mapsto> newEntry ''query-c'' NilSlice 6],
       order = [''query-b'', ''query-c'', ''query-a''], maxEntries = 3, ttl = 10\<rparr>,
      emptyHeap)"
  unfolding expiryTouched_def expiryFilled_cache
  by (simp add: Get_def Let_def normalize_examples newEntry_def moveToEndLocked_def)

lemma expiryPut_eval:
  "fst (Put asciiStrings (fst (snd expiryTouched)) (snd (snd expiryTouched)) 11 ''query-D'' NilSlice)
   = \<lparr>entries = [''query-b'' \<mapsto> newEntry ''query-b'' NilSlice 5,
                  ''query-c'' \<mapsto> newEntry ''query-c'' NilSlice 6,
                  ''query-d'' \<mapsto> newEntry ''query-d'' NilSlice 11],
      order = [''query-b'', ''query-c'', ''query-d''], maxEntries = 3, ttl = 10\<rparr>"
  unfolding expiryTouched_eval
  by (simp add: cache_eval normalize_examples fun_eq_iff)

text \<open>
  Claim C4, as stated, at capacity 3 and a time to live of 10 ns: \<open>Put\<close> of A at time 0,
  of B at 5 and of C at 6, a hit \<open>Get(A)\<close> at 7, which moves A to the tail and leaves its
  creation time, and \<open>Put\<close> of D at 11. The cache holds three entries when D is put and
  B is the head of the order; the claim has B evicted while A, C and D remain. The code
  first sweeps the expired A, then finds the cache below capacity and evicts nothing:
  B remains, at the head, and A is gone.
\<close>

theorem lru_eviction_expired_counterexample:
  "fst expiryTouched = (NilSlice, True)
   \<and> order (fst (snd expiryTouched)) = [''query-b'', ''query-c'', ''query-a'']
   \<and> Len (fst (snd expiryTouched)) = maxEntries (fst (snd expiryTouched))
   \<and> order (fst (Put asciiStrings (fst (snd expiryTouched)) (snd (snd expiryTouched)) 11
                ''query-D'' NilSlice))
       = [''query-b'', ''query-c'', ''query-d'']
   \<and> entries (fst (Put asciiStrings (fst (snd expiryTouched)) (snd (snd expiryTouched)) 11
                ''query-D'' NilSlice)) ''query-b''
       = Some (newEntry ''query-b'' NilSlice 5)
   \<and> entries (fst (Put asciiStrings (fst (snd expiryTouched)) (snd (snd expiryTouched)) 11
                ''query-D'' NilSlice)) ''query-a''
       = None"
  unfolding expiryPut_eval
  by (simp add: expiryTouched_eval Len_def)

text \<open>
  Claim C4, amended. When \<open>Put\<close> inserts a new key and the cache, once \<open>Put\<close> has swept
  the expired entries, is at capacity, the head of the swept recency order is removed
  from the mapping and from the order, and the new key is appended at the tail (the
  sweep changes nothing when no entry is expired). A hit of \<open>Get\<close> moves the key of the
  entry it hit to the tail. Hence with capacity 3, after \<open>Put\<close> of A, B and C, a hit
  \<open>Get(A)\<close> and \<open>Put\<close> of D, of four different non-empty normalized keys and all
  within the time to live of the first \<open>Put\<close>, B is gone and the order is C, A, D.
\<close>

theorem lru_eviction:
  "(reachable L sc \<and> normalizeQuery L q = k \<and> k \<noteq> []
      \<and> entries (evictExpiredLocked sc now) k = None
      \<and> Len (evictExpiredLocked sc now) = maxEntries sc \<longrightarrow>
      order (evictExpiredLocked sc now) \<noteq> []
      \<and> fst (Put L sc h now q R)
          = (evictExpiredLocked sc now)
              \<lparr>entries := ((entries (evictExpiredLocked sc now))
                              (hd (order (evictExpiredLocked sc now)) := None))
                            (k \<mapsto> newEntry k (fst (copyResults h R)) now),
               order := tl (order (evictExpiredLocked sc now)) @ [k]\<rparr>
      \<and> hd (order (evictExpiredLocked sc now))
          \<notin> set (tl (order (evictExpiredLocked sc now)) @ [k]))
   \<and> (reachable L sc \<and> (\<forall>k' entry. entries sc k' = Some entry \<longrightarrow> now - createdAt entry < ttl sc)
        \<longrightarrow> evictExpiredLocked sc now = sc)
   \<and> (reachable L sc \<and> Get L sc h now iter q = ((s, True), sc', h') \<longrightarrow>
        (\<exists>k' entry. entries sc k' = Some entry \<and> readSlice h' s = readSlice h (results entry)
           \<and> sc' = sc\<lparr>order := remove1 k' (order sc) @ [k']\<rparr>))
   \<and> (normalizeQuery L qa = a \<and> normalizeQuery L qb = b \<and> normalizeQuery L qc = c
        \<and> normalizeQuery L qd = d \<and> distinct [a, b, c, d] \<and> [] \<notin> set [a, b, c, d]
        \<and> t1 \<le> t2 \<and> t2 \<le> t3 \<and> t3 \<le> t4 \<and> t4 \<le> t5 \<and> t5 - t1 < ttl (NewSearchCache 3 T0) \<longrightarrow>
        (case Put L (NewSearchCache 3 T0) h0 t1 qa Ra of
           (scA, hA) \<Rightarrow> (case Put L scA hA t2 qb Rb of
           (scB, hB) \<Rightarrow> (case Put L scB hB t3 qc Rc of
           (scC, hC) \<Rightarrow> (case Get L scC hC t4 iter qa of
           ((s, hit), scG, hG) \<Rightarrow> (case Put L scG hG t5 qd Rd of
           (scD, hD) \<Rightarrow> hit \<and> order scD = [c, a, d] \<and> dom (entries scD) = {a, c, d}
                          \<and> entries scD b = None))))))"
proof (intro conjI impI)
  assume a: "reachable L sc \<and> normalizeQuery L q = k \<and> k \<noteq> []
      \<and> entries (evictExpiredLocked sc now) k = None
      \<and> Len (evictExpiredLocked sc now) = maxEntries sc"
  then have inv: "cacheInv sc" "keyed sc" using reachable_inv by blast+
  from a have q: "normalizeQuery L q = k" and k: "k \<noteq> []"
    and n: "entries (evictExpiredLocked sc now) k = None"
    and l: "Len (evictExpiredLocked sc now) = maxEntries sc" by blast+
  show "order (evictExpiredLocked sc now) \<noteq> []"
    using Put_at_capacity(1)[OF inv q k n l] .
  show "fst (Put L sc h now q R)
          = (evictExpiredLocked sc now)
              \<lparr>entries := ((entries (evictExpiredLocked sc now))
                              (hd (order (evictExpiredLocked sc now)) := None))
                            (k \<mapsto> newEntry k (fst (copyResults h R)) now),
               order := tl (order (evictExpiredLocked sc now)) @ [k]\<rparr>"
    using Put_at_capacity(2)[OF inv q k n l] .
  show "hd (order (evictExpiredLocked sc now))
          \<notin> set (tl (order (evictExpiredLocked sc now)) @ [k])"
    using Put_at_capacity(3)[OF inv q k n l] .
next
  assume a: "reachable L sc
     \<and> (\<forall>k' entry. entries sc k' = Some entry \<longrightarrow> now - createdAt entry < ttl sc)"
  then have "cacheInv sc" using reachable_inv by blast
  then have "set (order sc) = dom (entries sc)" by (simp add: cacheInv_def)
  then show "evictExpiredLocked sc now = sc"
    using a by (intro evictExpired_id) (simp_all add: live_def)
next
  assume a: "reachable L sc \<and> Get L sc h now iter q = ((s, True), sc', h')"
  then have "keyed sc" using reachable_inv by blast
  from Get_hit_moves[OF this] a
  show "\<exists>k' entry. entries sc k' = Some entry \<and> readSlice h' s = readSlice h (results entry)
           \<and> sc' = sc\<lparr>order := remove1 k' (order sc) @ [k']\<rparr>"
    by blast
next
  assume "normalizeQuery L qa = a \<and> normalizeQuery L qb = b \<and> normalizeQuery L qc = c
        \<and> normalizeQuery L qd = d \<and> distinct [a, b, c, d] \<and> [] \<notin> set [a, b, c, d]
        \<and> t1 \<le> t2 \<and> t2 \<le> t3 \<and> t3 \<le> t4 \<and> t4 \<le> t5 \<and> t5 - t1 < ttl (NewSearchCache 3 T0)"
  then show "case Put L (NewSearchCache 3 T0) h0 t1 qa Ra of
           (scA, hA) \<Rightarrow> (case Put L scA hA t2 qb Rb of
           (scB, hB) \<Rightarrow> (case Put L scB hB t3 qc Rc of
           (scC, hC) \<Rightarrow> (case Get L scC hC t4 iter qa of
           ((s, hit), scG, hG) \<Rightarrow> (case Put L scG hG t5 qd Rd of
           (scD, hD) \<Rightarrow> hit \<and> order scD = [c, a, d] \<and> dom (entries scD) = {a, c, d}
                          \<and> entries scD b = None))))"
    by (intro lru_scenario) blast+
qed


lemma lruFilled_cache:
  "fst lruFilled
   = \<lparr>entries = [''query-a'' \<mapsto> newEntry ''query-a'' NilSlice 0,
                  ''query-b'' \<mapsto> newEntry ''query-b'' NilSlice 1,
                  ''query-c'' \<mapsto> newEntry ''query-c'' NilSlice 2],
      order = [''query-a'', ''query-b'', ''query-c''], maxEntries = 3, ttl = 3600000000000\<rparr>"
  "snd lruFilled = emptyHeap"
  by (simp_all add: lruFilled_def cache_eval normalize_examples)

lemma lruTouched_eval:
  "lruTouched
   = ((NilSlice, True),
      \<lparr>entries = [''query-a'' \<mapsto> newEntry ''query-a'' NilSlice 0,
                  ''query-b'' \<mapsto> newEntry ''query-b'' NilSlice 1,
                  ''query-c'' \<mapsto> newEntry ''query-c'' NilSlice 2],
       order = [''query-b'', ''query-c'', ''query-a''], maxEntries = 3, ttl = 3600000000000\<rparr>,
      emptyHeap)"
  unfolding lruTouched_def lruFilled_cache
  by (simp add: Get_def Let_def normalize_examples newEntry_def moveToEndLocked_def)

lemma lruFilled_reachable: "reachable asciiStrings (fst lruFilled)" "reachable asciiStrings (fst (snd lruTouched))"
proof -
  have "fst lruFilled
        = fst (Put asciiStrings (fst (Put asciiStrings (fst (Put asciiStrings (NewSearchCache 3 (60 * Minute)) emptyHeap 0 ''query-A''
             NilSlice))
            (snd (Put asciiStrings (NewSearchCache 3 (60 * Minute)) emptyHeap 0 ''query-A'' NilSlice)) 1
            ''query-B'' NilSlice))
          (snd (Put asciiStrings (fst (Put asciiStrings (NewSearchCache 3 (60 * Minute)) emptyHeap 0 ''query-A'' NilSlice))
            (snd (Put asciiStrings (NewSearchCache 3 (60 * Minute)) emptyHeap 0 ''query-A'' NilSlice)) 1
            ''query-B'' NilSlice)) 2 ''query-C'' NilSlice)"
    by (simp add: lruFilled_def case_prod_beta)
  then show r: "reachable asciiStrings (fst lruFilled)"
    by (simp only:) (intro reachable_Put reachable_New)
  show "reachable asciiStrings (fst (snd lruTouched))"
    unfolding lruTouched_def by (rule reachable_Get) (rule r)
qed

theorem lru_eviction_witness:
  "fst lruTouched = (NilSlice, True)
   \<and> order (fst (snd lruTouched)) = [''query-b'', ''query-c'', ''query-a'']
   \<and> evictExpiredLocked (fst (snd lruTouched)) 4 = fst (snd lruTouched)
   \<and> order (fst (Put asciiStrings (fst (snd lruTouched)) (snd (snd lruTouched)) 4 ''query-D'' NilSlice))
       = [''query-c'', ''query-a'', ''query-d'']
   \<and> entries (fst (Put asciiStrings (fst (snd lruTouched)) (snd (snd lruTouched)) 4 ''query-D'' NilSlice))
        ''query-b'' = None
   \<and> (\<exists>k' entry. entries (fst lruFilled) k' = Some entry
         \<and> fst (snd lruTouched)
             = (fst lruFilled)\<lparr>order := remove1 k' (order (fst lruFilled)) @ [k']\<rparr>)
   \<and> (case Put asciiStrings (NewSearchCache 3 (60 * Minute)) emptyHeap 0 ''query-A'' NilSlice of
         (scA, hA) \<Rightarrow> (case Put asciiStrings scA hA 1 ''query-B'' NilSlice of
         (scB, hB) \<Rightarrow> (case Put asciiStrings scB hB 2 ''query-C'' NilSlice of
         (scC, hC) \<Rightarrow> (case Get asciiStrings scC hC 3 [''query-b'', ''query-c'', ''query-a''] ''query-A'' of
         ((s, hit), scG, hG) \<Rightarrow> (case Put asciiStrings scG hG 4 ''query-D'' NilSlice of
         (scD, hD) \<Rightarrow> hit \<and> order scD = [''query-c'', ''query-a'', ''query-d'']
                        \<and> dom (entries scD) = {''query-a'', ''query-c'', ''query-d''}
                        \<and> entries scD ''query-b'' = None)))))"
proof -
  let ?scT = "fst (snd lruTouched)" and ?hT = "snd (snd lruTouched)"
  have T: "?scT = \<lparr>entries = [''query-a'' \<mapsto> newEntry ''query-a'' NilSlice 0,
                  ''query-b'' \<mapsto> newEntry ''query-b'' NilSlice 1,
                  ''query-c'' \<mapsto> newEntry ''query-c'' NilSlice 2],
       order = [''query-b'', ''query-c'', ''query-a''], maxEntries = 3, ttl = 3600000000000\<rparr>"
    by (simp add: lruTouched_eval)
  have w0: "fst lruTouched = (NilSlice, True)" by (simp add: lruTouched_eval)
  have alive: "\<forall>k' entry. entries ?scT k' = Some entry \<longrightarrow> 4 - createdAt entry < ttl ?scT"
    unfolding T by (auto simp: newEntry_def split: if_splits)
  have w2: "evictExpiredLocked ?scT 4 = ?scT"
    using lru_eviction[where L=asciiStrings and sc="?scT" and now=4, THEN conjunct2, THEN conjunct1]
      lruFilled_reachable(2) alive by (rule mp[OF _ conjI])
  have full: "entries (evictExpiredLocked ?scT 4) ''query-d'' = None
              \<and> Len (evictExpiredLocked ?scT 4) = maxEntries ?scT"
    unfolding w2 unfolding T by (simp add: Len_def)
  have put: "fst (Put asciiStrings ?scT ?hT 4 ''query-D'' NilSlice)
          = (evictExpiredLocked ?scT 4)
              \<lparr>entries := ((entries (evictExpiredLocked ?scT 4))
                              (hd (order (evictExpiredLocked ?scT 4)) := None))
                            (''query-d'' \<mapsto> newEntry ''query-d'' (fst (copyResults ?hT NilSlice)) 4),
               order := tl (order (evictExpiredLocked ?scT 4)) @ [''query-d'']\<rparr>"
    using lru_eviction[where L=asciiStrings and sc="?scT" and now=4 and q="''query-D''" and k="''query-d''"
        and h="?hT" and R=NilSlice, THEN conjunct1] lruFilled_reachable(2) full
    by (simp add: normalize_examples)
  have w1: "order (fst (Put asciiStrings ?scT ?hT 4 ''query-D'' NilSlice)) = [''query-c'', ''query-a'', ''query-d'']"
    and w1': "entries (fst (Put asciiStrings ?scT ?hT 4 ''query-D'' NilSlice)) ''query-b'' = None"
    unfolding put w2 unfolding T by simp_all
  have g: "Get asciiStrings (fst lruFilled) (snd lruFilled) 3 [''query-b'', ''query-c'', ''query-a''] ''query-A''
           = ((NilSlice, True), ?scT, ?hT)"
    using lruTouched_eval by (simp add: lruTouched_def)
  have w3: "\<exists>k' entry. entries (fst lruFilled) k' = Some entry
         \<and> ?scT = (fst lruFilled)\<lparr>order := remove1 k' (order (fst lruFilled)) @ [k']\<rparr>"
    using lru_eviction[where L=asciiStrings and sc="fst lruFilled" and h="snd lruFilled" and now=3
        and iter="[''query-b'', ''query-c'', ''query-a'']" and q="''query-A''" and s=NilSlice
        and sc'="?scT" and h'="?hT", THEN conjunct2, THEN conjunct2, THEN conjunct1]
      lruFilled_reachable(1) g
    by blast
  have hyp: "normalizeQuery asciiStrings ''query-A'' = ''query-a'' \<and> normalizeQuery asciiStrings ''query-B'' = ''query-b''
        \<and> normalizeQuery asciiStrings ''query-C'' = ''query-c'' \<and> normalizeQuery asciiStrings ''query-D'' = ''query-d''
        \<and> distinct [''query-a'', ''query-b'', ''query-c'', ''query-d'']
        \<and> [] \<notin> set [''query-a'', ''query-b'', ''query-c'', ''query-d'']
        \<and> (0::int) \<le> 1 \<and> (1::int) \<le> 2 \<and> (2::int) \<le> 3 \<and> (3::int) \<le> 4
        \<and> (4::int) - 0 < ttl (NewSearchCache 3 (60 * Minute))"
    by (simp add: normalize_examples NewSearchCache_def Minute_def)
  have w4: "case Put asciiStrings (NewSearchCache 3 (60 * Minute)) emptyHeap 0 ''query-A'' NilSlice of
         (scA, hA) \<Rightarrow> (case Put asciiStrings scA hA 1 ''query-B'' NilSlice of
         (scB, hB) \<Rightarrow> (case Put asciiStrings scB hB 2 ''query-C'' NilSlice of
         (scC, hC) \<Rightarrow> (case Get asciiStrings scC hC 3 [''query-b'', ''query-c'', ''query-a''] ''query-A'' of
         ((s, hit), scG, hG) \<Rightarrow> (case Put asciiStrings scG hG 4 ''query-D'' NilSlice of
         (scD, hD) \<Rightarrow> hit \<and> order scD = [''query-c'', ''query-a'', ''query-d'']
                        \<and> dom (entries scD) = {''query-a'', ''query-c'', ''query-d''}
                        \<and> entries scD ''query-b'' = None))))"
    using lru_eviction[where L=asciiStrings and qa="''query-A''" and qb="''query-B''" and qc="''query-C''"
        and qd="''query-D''" and a="''query-a''" and b="''query-b''" and c="''query-c''"
        and d="''query-d''" and ?t1.0=0 and ?t2.0=1 and ?t3.0=2 and ?t4.0=3 and ?t5.0=4
        and ?T0.0="60 * Minute" and ?h0.0=emptyHeap and Ra=NilSlice and Rb=NilSlice
        and Rc=NilSlice and Rd=NilSlice and iter="[''query-b'', ''query-c'', ''query-a'']",
        THEN conjunct2, THEN conjunct2, THEN conjunct2]
      hyp
    by (rule mp)
  have w5: "order ?scT = [''query-b'', ''query-c'', ''query-a'']" by (simp add: T)
  show ?thesis using w0 w1 w1' w2 w3 w4 w5 by blast
qed

section \<open>Queries shorter than three bytes\<close>

lemma finite_trigramWindows: "finite (trigramWindows s)"
proof -
  have "trigramWindows s
        = (\<lambda>i. trigramHash (s ! i) (s ! (i + 1)) (s ! (i + 2))) ` {i. i + 2 < length s}"
    by (auto simp: trigramWindows_def)
  moreover have "finite {i. i + 2 < length s}"
    by (rule finite_subset[of _ "{..<length s}"]) auto
  ultimately show ?thesis by simp
qed

lemma buildTrigrams_Nil_iff: "buildTrigrams s = [] \<longleftrightarrow> length s < 3"
proof (cases "length s < 3")
  case True
  then show ?thesis by (simp add: buildTrigrams_short)
next
  case False
  then have "trigramHash (s ! 0) (s ! (0 + 1)) (s ! (0 + 2)) \<in> trigramWindows s"
    unfolding trigramWindows_def by (intro CollectI exI[of _ 0]) simp
  then have "set (buildTrigrams s) \<noteq> {}"
    using False finite_trigramWindows[of s] by (auto simp: buildTrigrams_windows)
  then show ?thesis using False by auto
qed

lemma scanStep_short:
  assumes "0 \<le> s"
  shows "scanStep now t [] es k (b, s)
         = (if shortLive now t es k \<and> s < 1 then (es k, 1) else (b, s))"
proof (cases "es k")
  case None
  then show ?thesis by (simp add: scanStep_def shortLive_def)
next
  case (Some entry)
  show ?thesis
  proof (cases "trigrams entry = []")
    case True
    then show ?thesis using Some
      by (auto simp: scanStep_def shortLive_def live_def jaccard_empty_left Let_def)
  next
    case False
    then show ?thesis using Some assms
      by (auto simp: scanStep_def shortLive_def live_def jaccard_empty_left Let_def)
  qed
qed

lemma scan_short_found:
  "fold (scanStep now t [] es) iter (Some e, 1) = (Some e, 1)"
  by (induction iter) (simp_all add: scanStep_short)

lemma scan_short:
  "fold (scanStep now t [] es) iter (None, 0)
   = (case find (shortLive now t es) iter of None \<Rightarrow> (None, 0) | Some k \<Rightarrow> (es k, 1))"
proof (induction iter)
  case Nil
  then show ?case by simp
next
  case (Cons k iter)
  show ?case
  proof (cases "shortLive now t es k")
    case True
    then obtain e where "es k = Some e" by (auto simp: shortLive_def split: option.splits)
    then show ?thesis using True by (simp add: scanStep_short scan_short_found)
  next
    case False
    then show ?thesis using Cons by (simp add: scanStep_short)
  qed
qed

lemma similarityMatch_short:
  assumes "length k < 3" "find (shortLive now (ttl sc) (entries sc)) iter = Some k1"
    "entries sc k1 = Some e1"
  shows "similarityMatch sc h now iter k
         = ((fst (copyResults h (results e1)), True), moveToEndLocked sc (query e1),
            snd (copyResults h (results e1)))"
  using assms
  by (simp add: similarityMatch_def buildTrigrams_short scan_short similarityThreshold_def
      split: prod.splits)


lemma shortLive_keyed:
  "keyed sc \<Longrightarrow>
   shortLive now (ttl sc) (entries sc) k' \<longleftrightarrow> liveKey now (ttl sc) (entries sc) k' \<and> length k' < 3"
  by (auto simp: shortLive_def liveKey_def keyed_def buildTrigrams_Nil_iff split: option.splits)

lemma short_query_hit:
  assumes r: "reachable L sc" and it: "set iter = dom (entries sc)"
    and q: "normalizeQuery L q = k" "k \<noteq> []" "length k < 3"
    and k0: "liveKey now (ttl sc) (entries sc) k0" "length k0 < 3"
  shows "\<exists>k1 e1. entries sc k1 = Some e1 \<and> now - createdAt e1 < ttl sc \<and> length k1 < 3
     \<and> Get L sc h now iter q
         = ((fst (copyResults h (results e1)), True), moveToEndLocked sc k1,
            snd (copyResults h (results e1)))
     \<and> (if liveKey now (ttl sc) (entries sc) k then k1 = k
         else find (\<lambda>k'. liveKey now (ttl sc) (entries sc) k' \<and> length k' < 3) iter = Some k1)
     \<and> ((\<forall>k'. liveKey now (ttl sc) (entries sc) k' \<and> length k' < 3 \<longrightarrow> k' = k0) \<longrightarrow> k1 = k0)"
proof -
  have kd: "keyed sc" using r reachable_inv by blast
  let ?P = "\<lambda>k'. liveKey now (ttl sc) (entries sc) k' \<and> length k' < 3"
  have fP: "find (shortLive now (ttl sc) (entries sc)) iter = find ?P iter"
    using shortLive_keyed[OF kd] by (intro find_cong) auto
  show ?thesis
  proof (cases "liveKey now (ttl sc) (entries sc) k")
    case True
    then obtain e where e: "entries sc k = Some e" "live now (ttl sc) e"
      by (auto simp: liveKey_def split: option.splits)
    have "Get L sc h now iter q
         = ((fst (copyResults h (results e)), True), moveToEndLocked sc k,
            snd (copyResults h (results e)))"
      using Get_exact[OF q(1,2) e] .
    then show ?thesis using e q(3) True by (auto simp: live_def)
  next
    case False
    then have g: "Get L sc h now iter q = similarityMatch sc h now iter k"
      using q by (auto simp: Get_def Let_def liveKey_def live_def split: option.splits)
    have "k0 \<in> set iter" using k0(1) it by (auto simp: liveKey_def split: option.splits)
    then have "find ?P iter \<noteq> None" using k0 by (auto simp: find_None_iff)
    then obtain k1 where f: "find ?P iter = Some k1" by auto
    then have p1: "?P k1" by (auto simp: find_Some_iff)
    then obtain e1 where e1: "entries sc k1 = Some e1" "live now (ttl sc) e1"
      by (auto simp: liveKey_def split: option.splits)
    have qe: "query e1 = k1" using kd e1(1) by (simp add: keyed_def)
    have "Get L sc h now iter q
         = ((fst (copyResults h (results e1)), True), moveToEndLocked sc k1,
            snd (copyResults h (results e1)))"
      using similarityMatch_short[OF q(3) _ e1(1), of now iter h] f fP g qe by simp
    then show ?thesis using e1 p1 f False by (auto simp: live_def)
  qed
qed

text \<open>
  Claim C10, as stated, at a cache with two live entries of short keys, \<open>zz\<close> and \<open>yy\<close>,
  and the query \<open>ab\<close>, which is the key of no entry: the claim has \<open>Get\<close> return the
  results of each of the two. It returns those of the one that the iteration over the
  map meets first.
\<close>

theorem short_query_counterexample:
  "liveResults (fst shortScenario) (snd shortScenario) 1 ''zz'' = Some [mkResult 1 ''first'']
   \<and> liveResults (fst shortScenario) (snd shortScenario) 1 ''yy'' = Some [mkResult 1 ''second'']
   \<and> normalizeQuery asciiStrings ''ab'' = ''ab''
   \<and> entries (fst shortScenario) ''ab'' = None
   \<and> getResults asciiStrings (fst shortScenario) (snd shortScenario) 1 [''yy'', ''zz''] ''ab''
       = (True, [mkResult 1 ''second''])
   \<and> getResults asciiStrings (fst shortScenario) (snd shortScenario) 1 [''zz'', ''yy''] ''ab''
       = (True, [mkResult 1 ''first''])
   \<and> [mkResult 1 ''second''] \<noteq> [mkResult 1 ''first'']"
  by (simp add: shortScenario_def liveResults_def getResults_def cache_eval normalize_examples
      live_def buildTrigrams_def jaccardSimilarity_def similarityThreshold_def mkResult_def mkScored_def)

text \<open>
  Claim C10, amended. If the cache holds a live entry whose key is shorter than 3
  bytes, then \<open>Get\<close> of any query whose normalized form is not empty and shorter than
  3 bytes is a hit. It is the exact hit when the query is the key of a live entry;
  otherwise it returns the results of the first live entry, in the order in which the
  map is iterated, whose key is shorter than 3 bytes. So it returns the results of that
  entry when no other live entry has a key shorter than 3 bytes. The normalized form
  is the one that the library \<open>L\<close> computes, and \<open>L\<close> is arbitrary: the statement holds
  with Go's \<open>strings.TrimSpace\<close> and \<open>strings.ToLower\<close>, the lengths being those of the
  strings they return.
\<close>

theorem short_query_hits_short_entry:
  "reachable L sc \<and> set iter = dom (entries sc)
   \<and> normalizeQuery L q = k \<and> k \<noteq> [] \<and> length k < 3
   \<and> liveKey now (ttl sc) (entries sc) k0 \<and> length k0 < 3 \<longrightarrow>
   (\<exists>k1 e1. entries sc k1 = Some e1 \<and> now - createdAt e1 < ttl sc \<and> length k1 < 3
     \<and> Get L sc h now iter q
         = ((fst (copyResults h (results e1)), True), moveToEndLocked sc k1,
            snd (copyResults h (results e1)))
     \<and> (if liveKey now (ttl sc) (entries sc) k then k1 = k
         else find (\<lambda>k'. liveKey now (ttl sc) (entries sc) k' \<and> length k' < 3) iter = Some k1)
     \<and> ((\<forall>k'. liveKey now (ttl sc) (entries sc) k' \<and> length k' < 3 \<longrightarrow> k' = k0) \<longrightarrow> k1 = k0))"
  using short_query_hit[of L sc iter q k now k0 h] by blast


lemma zzScenario_cache:
  "fst zzScenario
   = \<lparr>entries = [''zz'' \<mapsto> newEntry ''zz'' (Slice 1 0 1) 0], order = [''zz''],
      maxEntries = 10, ttl = 300000000000\<rparr>"
  "readSlice (snd zzScenario) (Slice 1 0 1) = [mkResult 1 ''first'']"
  by (simp_all add: zzScenario_def cache_eval normalize_examples)

theorem short_query_hits_short_entry_witness:
  "reachable asciiStrings (fst zzScenario) \<and> set [''zz''] = dom (entries (fst zzScenario))
   \<and> normalizeQuery asciiStrings ''ab'' = ''ab'' \<and> ''ab'' \<noteq> [] \<and> length ''ab'' < 3
   \<and> liveKey 1 (ttl (fst zzScenario)) (entries (fst zzScenario)) ''zz'' \<and> length ''zz'' < 3
   \<and> getResults asciiStrings (fst zzScenario) (snd zzScenario) 1 [''zz''] ''ab'' = (True, [mkResult 1 ''first''])"
proof -
  let ?sc = "fst zzScenario" and ?h = "snd zzScenario"
  have r: "reachable asciiStrings ?sc" unfolding zzScenario_def by (rule reachable_Put) (rule reachable_New)
  have e: "entries ?sc = [''zz'' \<mapsto> newEntry ''zz'' (Slice 1 0 1) 0]" and t: "ttl ?sc = 300000000000"
    by (simp_all add: zzScenario_cache)
  have lk: "liveKey 1 (ttl ?sc) (entries ?sc) k' \<longleftrightarrow> k' = ''zz''" for k'
    unfolding e t by (simp add: liveKey_def live_def newEntry_def)
  have hyp: "reachable asciiStrings ?sc \<and> set [''zz''] = dom (entries ?sc)
     \<and> normalizeQuery asciiStrings ''ab'' = ''ab'' \<and> ''ab'' \<noteq> [] \<and> length ''ab'' < 3
     \<and> liveKey 1 (ttl ?sc) (entries ?sc) ''zz'' \<and> length ''zz'' < 3"
    using r lk by (simp add: e normalize_examples)
  from short_query_hits_short_entry[where L=asciiStrings and sc="?sc" and iter="[''zz'']" and q="''ab''"
      and k="''ab''" and now=1 and ?k0.0="''zz''" and h="?h", THEN mp, OF hyp]
  obtain k1 e1 where e1: "entries ?sc k1 = Some e1"
    and g: "Get asciiStrings ?sc ?h 1 [''zz''] ''ab''
         = ((fst (copyResults ?h (results e1)), True), moveToEndLocked ?sc k1,
            snd (copyResults ?h (results e1)))"
    and u: "(\<forall>k'. liveKey 1 (ttl ?sc) (entries ?sc) k' \<and> length k' < 3 \<longrightarrow> k' = ''zz'')
             \<longrightarrow> k1 = ''zz''"
    by blast
  have "k1 = ''zz''" using u lk by blast
  then have "results e1 = Slice 1 0 1" using e1 by (auto simp: e newEntry_def)
  then have "getResults asciiStrings ?sc ?h 1 [''zz''] ''ab'' = (True, [mkResult 1 ''first''])"
    using copyResults_read[of ?h "Slice 1 0 1"] zzScenario_cache(2)
    by (simp add: getResults_def g)
  then show ?thesis using hyp by blast
qed

section \<open>Copies and aliasing\<close>

lemma Get_hitEntry:
  "Get L sc h now iter q
   = (case hitEntry L sc now iter q of
        None \<Rightarrow> ((NilSlice, False), sc, h)
      | Some (mk, entry) \<Rightarrow>
          ((fst (copyResults h (results entry)), True), moveToEndLocked sc mk,
           snd (copyResults h (results entry))))"
  by (auto simp: Get_def hitEntry_def similarityMatch_def Let_def
      split: option.splits prod.splits)

lemma hitEntry_in:
  assumes "hitEntry L sc now iter q = Some (mk, entry)"
  shows "entry \<in> ran (entries sc)"
proof -
  have g: "Get L sc h now iter q
        = ((fst (copyResults h (results entry)), True), moveToEndLocked sc mk,
           snd (copyResults h (results entry)))" for h
    using assms by (simp add: Get_hitEntry)
  show ?thesis
  proof (cases "normalizeQuery L q \<noteq> [] \<and> (\<exists>e. entries sc (normalizeQuery L q) = Some e
                   \<and> now - createdAt e < ttl sc)")
    case True
    then show ?thesis using assms by (auto simp: hitEntry_def Let_def ran_def)
  next
    case False
    obtain b s where f: "fold (scanStep now (ttl sc) (buildTrigrams (normalizeQuery L q))
                           (entries sc)) iter (None, 0) = (b, s)" by force
    have "b = Some entry"
      using assms False f
      by (auto simp: hitEntry_def Let_def split: option.splits if_splits)
    with scan_picks[OF f] show ?thesis by (auto simp: ran_def)
  qed
qed

lemma getResults_hitEntry:
  "getResults L sc h now iter q
   = (case hitEntry L sc now iter q of
        None \<Rightarrow> (False, [])
      | Some (mk, entry) \<Rightarrow> (True, readSlice h (results entry)))"
  by (simp add: getResults_def Get_hitEntry copyResults_read split: option.splits prod.splits)

lemma readSlice_write: "a \<notin> sliceArray s \<Longrightarrow> readSlice (writeArray h a xs) s = readSlice h s"
  by (cases s) (simp_all add: writeArray_def)

lemma owned_entry: "entry \<in> ran (entries sc) \<Longrightarrow> sliceArray (results entry) \<subseteq> owned sc"
  by (auto simp: owned_def)

lemma write_not_owned:
  assumes "a \<notin> owned sc"
  shows "stored sc (writeArray h a xs) = stored sc h"
    and "getResults L sc (writeArray h a xs) now iter q = getResults L sc h now iter q"
    and "fst (snd (Get L sc (writeArray h a xs) now iter q)) = fst (snd (Get L sc h now iter q))"
proof -
  have rd: "readSlice (writeArray h a xs) (results entry) = readSlice h (results entry)"
    if "entry \<in> ran (entries sc)" for entry
    using owned_entry[OF that] assms by (intro readSlice_write) auto
  show "stored sc (writeArray h a xs) = stored sc h"
  proof
    fix k
    show "stored sc (writeArray h a xs) k = stored sc h k"
      using rd by (cases "entries sc k") (auto simp: stored_def ran_def)
  qed
  show "getResults L sc (writeArray h a xs) now iter q = getResults L sc h now iter q"
    using rd hitEntry_in[of L sc now iter q]
    by (auto simp: getResults_hitEntry split: option.splits)
  show "fst (snd (Get L sc (writeArray h a xs) now iter q)) = fst (snd (Get L sc h now iter q))"
    by (simp add: Get_hitEntry split: option.splits prod.splits)
qed


lemma copyResults_fresh:
  "sliceArray (fst (copyResults h s)) \<subseteq> {nextFree h}"
  "nextFree h \<le> nextFree (snd (copyResults h s))"
  "\<forall>a \<in> sliceArray (fst (copyResults h s)). a < nextFree (snd (copyResults h s))"
  by (cases s; simp add: Let_def)+

lemma evictLRU_sub:
  "evictLRU mx es ord = (es', ord') \<Longrightarrow> es' k = Some e \<Longrightarrow> es k = Some e"
proof (induction ord arbitrary: es)
  case Nil
  then show ?case by simp
next
  case (Cons k0 ord)
  show ?case
  proof (cases "int (card (dom es)) \<ge> mx")
    case True
    then have "evictLRU mx (es(k0 := None)) ord = (es', ord')" using Cons.prems(1) by simp
    from Cons.IH[OF this Cons.prems(2)] show ?thesis by (auto split: if_splits)
  next
    case False
    then show ?thesis using Cons.prems by simp
  qed
qed

lemma Put_entries_sub:
  assumes "entries (fst (Put L sc h now q res)) k = Some e"
  shows "e = newEntry (normalizeQuery L q) (fst (copyResults h res)) now \<or> entries sc k = Some e"
proof (cases "normalizeQuery L q = []")
  case True
  then show ?thesis using assms by (simp add: Put_empty)
next
  case False
  let ?sc1 = "evictExpiredLocked sc now"
  show ?thesis
  proof (cases "entries ?sc1 (normalizeQuery L q)")
    case None
    obtain es ord where ev: "evictLRU (maxEntries sc) (entries ?sc1) (order ?sc1) = (es, ord)"
      by force
    have "entries (fst (Put L sc h now q res))
          = es(normalizeQuery L q \<mapsto> newEntry (normalizeQuery L q) (fst (copyResults h res)) now)"
      using Put_insert[OF refl False None ev] by simp
    then show ?thesis
      using assms evictLRU_sub[OF ev, of k e] evictExpired_sub[of sc now k e]
      by (auto split: if_splits)
  next
    case (Some e0)
    then have "entries ?sc1 (normalizeQuery L q) \<noteq> None" by simp
    from Put_update[OF refl False this]
    have "entries (fst (Put L sc h now q res))
          = (entries ?sc1)(normalizeQuery L q \<mapsto>
               newEntry (normalizeQuery L q) (fst (copyResults h res)) now)"
      by simp
    then show ?thesis
      using assms evictExpired_sub[of sc now k e] by (auto split: if_splits)
  qed
qed

lemma owned_Put:
  "owned (fst (Put L sc h now q res)) \<subseteq> owned sc \<union> sliceArray (fst (copyResults h res))"
proof
  fix a
  assume "a \<in> owned (fst (Put L sc h now q res))"
  then obtain k e where e: "entries (fst (Put L sc h now q res)) k = Some e"
    and a: "a \<in> sliceArray (results e)"
    by (auto simp: owned_def ran_def)
  from Put_entries_sub[OF e] show "a \<in> owned sc \<union> sliceArray (fst (copyResults h res))"
  proof
    assume "e = newEntry (normalizeQuery L q) (fst (copyResults h res)) now"
    then show ?thesis using a by (simp add: newEntry_def)
  next
    assume "entries sc k = Some e"
    then have "e \<in> ran (entries sc)" by (auto simp: ran_def)
    then show ?thesis using a owned_entry by blast
  qed
qed

lemma nextFree_Put: "nextFree h \<le> nextFree (snd (Put L sc h now q res))"
  using copyResults_fresh(2)[of h res]
  by (cases "normalizeQuery L q = []") (simp_all add: Put_empty Put_heap)

lemma fresh_Put:
  "\<forall>a \<in> sliceArray (fst (copyResults h res)). a < nextFree (snd (Put L sc h now q res))
     \<or> normalizeQuery L q = []"
  using copyResults_fresh(3)[of h res]
  by (cases "normalizeQuery L q = []") (simp_all add: Put_heap)

lemma owned_Get: "owned (fst (snd (Get L sc h now iter q))) = owned sc"
  by (simp add: Get_hitEntry owned_def moveToEndLocked_def split: option.splits prod.splits)

lemma Get_slice_fresh:
  "sliceArray (fst (fst (Get L sc h now iter q))) \<subseteq> {nextFree h}"
  "nextFree h \<le> nextFree (snd (snd (Get L sc h now iter q)))"
  "\<forall>a \<in> sliceArray (fst (fst (Get L sc h now iter q))).
     a < nextFree (snd (snd (Get L sc h now iter q)))"
  using copyResults_fresh
  by (auto simp: Get_hitEntry split: option.splits prod.splits)

lemma run_separate:
  "run L sc h A \<Longrightarrow>
   owned sc \<inter> A = {} \<and> (\<forall>a \<in> owned sc. a < nextFree h) \<and> (\<forall>a \<in> A. a < nextFree h)"
proof (induction rule: run.induct)
  case (run_New maxEntries0 ttl0 h)
  then show ?case by (simp add: owned_def NewSearchCache_def Let_def)
next
  case (run_alloc sc h A xs s h')
  then have s: "s = Slice (nextFree h) 0 (length xs)" and n: "nextFree h' = nextFree h + 1"
    by (auto simp: allocSlice_def)
  show ?case using run_alloc.IH by (auto simp: s n)
next
  case (run_write sc h A a xs)
  then show ?case by (simp add: writeArray_def)
next
  case (run_Put sc h A res now q sc' h')
  have sc': "sc' = fst (Put L sc h now q res)" and h': "h' = snd (Put L sc h now q res)"
    using run_Put.hyps by simp_all
  show ?case
  proof (cases "normalizeQuery L q = []")
    case True
    then show ?thesis using run_Put.IH sc' h' by (simp add: Put_empty)
  next
    case False
    have o: "owned sc' \<subseteq> owned sc \<union> sliceArray (fst (copyResults h res))"
      unfolding sc' by (rule owned_Put)
    have f: "sliceArray (fst (copyResults h res)) \<subseteq> {nextFree h}"
      by (rule copyResults_fresh(1))
    have n: "nextFree h \<le> nextFree h'" unfolding h' by (rule nextFree_Put)
    have f2: "\<forall>a \<in> sliceArray (fst (copyResults h res)). a < nextFree h'"
      unfolding h' using fresh_Put[of h res L sc now q] False by simp
    have "owned sc' \<inter> A = {}" using o f run_Put.IH by fastforce
    moreover have "\<forall>a \<in> owned sc'. a < nextFree h'" using o f2 n run_Put.IH by fastforce
    moreover have "\<forall>a \<in> A. a < nextFree h'" using n run_Put.IH by fastforce
    ultimately show ?thesis by simp
  qed
next
  case (run_Get sc h A now iter q s hit sc' h')
  have sc': "sc' = fst (snd (Get L sc h now iter q))" and h': "h' = snd (snd (Get L sc h now iter q))"
    and s: "s = fst (fst (Get L sc h now iter q))"
    using run_Get.hyps by simp_all
  have o: "owned sc' = owned sc" unfolding sc' by (rule owned_Get)
  have f: "sliceArray s \<subseteq> {nextFree h}" unfolding s by (rule Get_slice_fresh(1))
  have n: "nextFree h \<le> nextFree h'" unfolding h' by (rule Get_slice_fresh(2))
  have f2: "\<forall>a \<in> sliceArray s. a < nextFree h'" unfolding s h' by (rule Get_slice_fresh(3))
  have "owned sc' \<inter> (A \<union> sliceArray s) = {}" using o f run_Get.IH by fastforce
  moreover have "\<forall>a \<in> owned sc'. a < nextFree h'" using o n run_Get.IH by fastforce
  moreover have "\<forall>a \<in> A \<union> sliceArray s. a < nextFree h'" using n f2 run_Get.IH by fastforce
  ultimately show ?case by simp
qed


text \<open>
  Claim C8. Whatever the caller writes to an array it has a slice on, among them the
  array of every slice it passed to \<open>Put\<close> and of every slice a \<open>Get\<close> returned, the
  results stored in the cache and the outcome of every \<open>Get\<close> stay the same. \<open>Put\<close>
  stores a copy of the sequence it is given, in an array the caller has no slice on,
  and a hit of \<open>Get\<close> returns a copy of the stored sequence, in an array that no entry
  of the cache points to.
\<close>

theorem copy_isolation:
  "(run L sc h A \<and> a \<in> A \<longrightarrow>
      stored sc (writeArray h a xs) = stored sc h
      \<and> getResults L sc (writeArray h a xs) now iter q = getResults L sc h now iter q
      \<and> fst (snd (Get L sc (writeArray h a xs) now iter q)) = fst (snd (Get L sc h now iter q)))
   \<and> (run L sc h A \<and> sliceArray res \<subseteq> A \<and> normalizeQuery L q \<noteq> [] \<longrightarrow>
        stored (fst (Put L sc h now q res)) (snd (Put L sc h now q res)) (normalizeQuery L q)
          = Some (readSlice h res)
        \<and> owned (fst (Put L sc h now q res)) \<inter> A = {})
   \<and> (run L sc h A \<and> Get L sc h now iter q = ((s, True), sc', h') \<longrightarrow>
        sliceArray s \<inter> owned sc' = {} \<and> (\<exists>k. stored sc h k = Some (readSlice h' s)))"
proof (intro conjI impI)
  assume a: "run L sc h A \<and> a \<in> A"
  then have no: "a \<notin> owned sc" using run_separate[of L sc h A] by auto
  show "stored sc (writeArray h a xs) = stored sc h"
    using write_not_owned(1)[OF no] .
  show "getResults L sc (writeArray h a xs) now iter q = getResults L sc h now iter q"
    using write_not_owned(2)[OF no] .
  show "fst (snd (Get L sc (writeArray h a xs) now iter q)) = fst (snd (Get L sc h now iter q))"
    using write_not_owned(3)[OF no] .
next
  assume a: "run L sc h A \<and> sliceArray res \<subseteq> A \<and> normalizeQuery L q \<noteq> []"
  have "entries (fst (Put L sc h now q res)) (normalizeQuery L q)
        = Some (newEntry (normalizeQuery L q) (fst (copyResults h res)) now)"
    using a Put_stores[OF refl, where L=L and q=q and sc=sc and h=h and now=now and res=res] by simp
  then show "stored (fst (Put L sc h now q res)) (snd (Put L sc h now q res)) (normalizeQuery L q)
          = Some (readSlice h res)"
    using a by (simp add: stored_def newEntry_def Put_heap copyResults_read)
  have "run L (fst (Put L sc h now q res)) (snd (Put L sc h now q res)) A"
    using a run_Put[of L sc h A res now q] by simp
  then show "owned (fst (Put L sc h now q res)) \<inter> A = {}"
    using run_separate by blast
next
  assume a: "run L sc h A \<and> Get L sc h now iter q = ((s, True), sc', h')"
  then have "run L sc' h' (A \<union> sliceArray s)" using run_Get by blast
  then show "sliceArray s \<inter> owned sc' = {}" using run_separate by blast
  from a obtain mk entry where he: "hitEntry L sc now iter q = Some (mk, entry)"
    and s: "s = fst (copyResults h (results entry))" and h': "h' = snd (copyResults h (results entry))"
    by (auto simp: Get_hitEntry split: option.splits)
  from hitEntry_in[OF he] obtain k where "entries sc k = Some entry" by (auto simp: ran_def)
  then have "stored sc h k = Some (readSlice h' s)"
    by (simp add: stored_def s h' copyResults_read)
  then show "\<exists>k. stored sc h k = Some (readSlice h' s)" ..
qed

lemma copyScenario_eval:
  "copyScenario
   = (\<lparr>entries = [''test'' \<mapsto> newEntry ''test'' (Slice 1 0 1) 0], order = [''test''],
       maxEntries = 10, ttl = 300000000000\<rparr>,
      \<lparr>arrays = (\<lambda>a. [])(0 := [mkResult 0.9 ''github''], 1 := [mkResult 0.9 ''github'']),
       nextFree = 2\<rparr>)"
  by (simp add: copyScenario_def cache_eval normalize_examples)

lemma copyScenario_start:
  "run asciiStrings (NewSearchCache 10 (5 * Minute)) (snd (allocSlice emptyHeap [mkResult 0.9 ''github''])) {0}"
proof -
  have "run asciiStrings (NewSearchCache 10 (5 * Minute)) emptyHeap {a. a < nextFree emptyHeap}"
    by (rule run_New)
  then have "run asciiStrings (NewSearchCache 10 (5 * Minute))
               (snd (allocSlice emptyHeap [mkResult 0.9 ''github'']))
               ({a. a < nextFree emptyHeap}
                  \<union> sliceArray (fst (allocSlice emptyHeap [mkResult 0.9 ''github''])))"
    by (rule run_alloc) simp
  then show ?thesis by (simp add: allocSlice_def emptyHeap_def)
qed

lemma copyScenario_run: "run asciiStrings (fst copyScenario) (snd copyScenario) {0}"
  unfolding copyScenario_def
  by (rule run_Put[OF copyScenario_start]) (simp_all add: allocSlice_def emptyHeap_def)

theorem copy_isolation_witness:
  "run asciiStrings (fst copyScenario) (snd copyScenario) {0} \<and> (0::nat) \<in> {0}
   \<and> readSlice (writeArray (snd copyScenario) 0 [mkResult 0.9 ''mutated'']) (Slice 0 0 1)
       = [mkResult 0.9 ''mutated'']
   \<and> getResults asciiStrings (fst copyScenario) (writeArray (snd copyScenario) 0 [mkResult 0.9 ''mutated''])
        1 [''test''] ''test''
       = (True, [mkResult 0.9 ''github''])
   \<and> stored (fst copyScenario) (writeArray (snd copyScenario) 0 [mkResult 0.9 ''mutated''])
        ''test''
       = Some [mkResult 0.9 ''github'']
   \<and> owned (fst copyScenario) \<inter> {0} = {}
   \<and> fst (Get asciiStrings (fst copyScenario) (snd copyScenario) 1 [''test''] ''test'') = (Slice 2 0 1, True)
   \<and> sliceArray (Slice 2 0 1)
        \<inter> owned (fst (snd (Get asciiStrings (fst copyScenario) (snd copyScenario) 1 [''test''] ''test''))) = {}"
proof -
  let ?sc = "fst copyScenario" and ?h = "snd copyScenario"
  let ?w = "writeArray ?h 0 [mkResult 0.9 ''mutated'']"
  let ?scN = "NewSearchCache 10 (5 * Minute)"
  let ?hN = "snd (allocSlice emptyHeap [mkResult 0.9 ''github''])"
  let ?R = "fst (allocSlice emptyHeap [mkResult 0.9 ''github''])"
  have hyp: "run asciiStrings ?sc ?h {0} \<and> (0::nat) \<in> {0}" using copyScenario_run by simp
  have g: "getResults asciiStrings ?sc ?h 1 [''test''] ''test'' = (True, [mkResult 0.9 ''github''])"
    by (simp add: copyScenario_eval getResults_def Get_def Let_def normalize_examples newEntry_def
        moveToEndLocked_def)
  have st: "stored ?sc ?h ''test'' = Some [mkResult 0.9 ''github'']"
    by (simp add: copyScenario_eval stored_def newEntry_def)
  have "stored ?sc ?w = stored ?sc ?h
      \<and> getResults asciiStrings ?sc ?w 1 [''test''] ''test'' = getResults asciiStrings ?sc ?h 1 [''test''] ''test''"
    using copy_isolation[where L=asciiStrings and sc="?sc" and h="?h" and A="{0}" and a=0
        and xs="[mkResult 0.9 ''mutated'']" and now=1 and iter="[''test'']" and q="''test''",
        THEN conjunct1, THEN mp, OF hyp]
    by blast
  moreover have "readSlice ?w (Slice 0 0 1) = [mkResult 0.9 ''mutated'']"
    by (simp add: writeArray_def)
  ultimately have p1: "readSlice ?w (Slice 0 0 1) = [mkResult 0.9 ''mutated'']
      \<and> getResults asciiStrings ?sc ?w 1 [''test''] ''test'' = (True, [mkResult 0.9 ''github''])
      \<and> stored ?sc ?w ''test'' = Some [mkResult 0.9 ''github'']"
    using g st by simp
  have r0: "run asciiStrings ?scN ?hN {0}" by (rule copyScenario_start)
  have hyp2: "run asciiStrings ?scN ?hN {0} \<and> sliceArray ?R \<subseteq> {0} \<and> normalizeQuery asciiStrings ''test'' \<noteq> []"
    using r0 by (simp add: allocSlice_def emptyHeap_def normalize_examples)
  have p2: "owned ?sc \<inter> {0} = {}"
    using copy_isolation[where L=asciiStrings and sc="?scN" and h="?hN" and A="{0}" and res="?R" and q="''test''"
        and now=0, THEN conjunct2, THEN conjunct1, THEN mp, OF hyp2]
    by (simp add: copyScenario_def)
  obtain s hit sc' h' where ge: "Get asciiStrings ?sc ?h 1 [''test''] ''test'' = ((s, hit), sc', h')"
    by (metis prod.exhaust)
  have sh: "s = Slice 2 0 1" "hit"
    using ge
    by (simp_all add: copyScenario_eval Get_def Let_def normalize_examples newEntry_def
        moveToEndLocked_def)
  have hyp3: "run asciiStrings ?sc ?h {0} \<and> Get asciiStrings ?sc ?h 1 [''test''] ''test'' = ((Slice 2 0 1, True), sc', h')"
    using copyScenario_run ge sh by simp
  have p3: "sliceArray (Slice 2 0 1) \<inter> owned sc' = {}"
    using copy_isolation[where L=asciiStrings and sc="?sc" and h="?h" and A="{0}" and now=1 and iter="[''test'']"
        and q="''test''" and s="Slice 2 0 1" and sc'=sc' and h'=h',
        THEN conjunct2, THEN conjunct2, THEN mp, OF hyp3]
    by blast
  show ?thesis using hyp p1 p2 p3 ge sh by simp
qed

section \<open>The concurrency cap\<close>

lemma count_update:
  assumes "i < length xs"
  shows "length (filter P (xs[i := y])) + (if P (xs ! i) then 1 else 0)
         = length (filter P xs) + (if P y then 1 else 0)"
proof -
  let ?l = "take i xs" and ?r = "drop (Suc i) xs"
  have "filter P xs = filter P (?l @ xs ! i # ?r)"
    using id_take_nth_drop[OF assms] by (rule arg_cong)
  then have a: "length (filter P xs)
                = length (filter P ?l) + (if P (xs ! i) then 1 else 0) + length (filter P ?r)"
    by simp
  have "filter P (xs[i := y]) = filter P (?l @ y # ?r)"
    using upd_conv_take_nth_drop[OF assms] by (rule arg_cong)
  then have b: "length (filter P (xs[i := y]))
                = length (filter P ?l) + (if P y then 1 else 0) + length (filter P ?r)"
    by simp
  show ?thesis unfolding a b by simp
qed

lemma step_inv:
  assumes "step rm s s'" "sem s = holding s"
  shows "sem s' = holding s' \<and> length (units s') = length (units s)
         \<and> (sem s' \<le> sem s \<or> int (sem s') \<le> maxConcurrent rm)"
  using assms
proof (induction rule: step.induct)
  case (acquire i s rm)
  from count_update[OF acquire.hyps(1), of holdsSlot Searching] acquire
  show ?case by (simp add: holding_def)
next
  case (cancelled i s rm)
  from count_update[OF cancelled.hyps(1), of holdsSlot Finished] cancelled
  show ?case by (simp add: holding_def)
next
  case (returned i s rm rr)
  from count_update[OF returned.hyps(1), of holdsSlot "Returned rr"] returned
  show ?case by (simp add: holding_def)
next
  case (release i s rr rm)
  from count_update[OF release.hyps(1), of holdsSlot Finished] release
  show ?case by (simp add: holding_def)
qed

lemma inCall_inv:
  "inCall rm s \<Longrightarrow>
   sem s = holding s \<and> length (units s) = length (registries rm)
   \<and> (sem s = 0 \<or> int (sem s) \<le> maxConcurrent rm)"
proof (induction rule: inCall.induct)
  case (inCall_init rm)
  then show ?case by (simp add: initCall_def holding_def)
next
  case (inCall_step rm s s')
  from step_inv[OF inCall_step.hyps(2)] inCall_step.IH
  show ?case by auto
qed

lemma inFlight_le_holding: "inFlight s \<le> holding s"
proof -
  have "length (filter (\<lambda>u. u = Searching) xs) \<le> length (filter holdsSlot xs)" for xs
    by (induction xs) auto
  then show ?thesis by (simp add: inFlight_def holding_def)
qed

lemma holding_pos: "i < length (units s) \<Longrightarrow> holdsSlot (units s ! i) \<Longrightarrow> 0 < holding s"
proof -
  assume "i < length (units s)" "holdsSlot (units s ! i)"
  then have "units s ! i \<in> set (filter holdsSlot (units s))" by simp
  then have "filter holdsSlot (units s) \<noteq> []" by (metis empty_iff empty_set)
  then show ?thesis by (simp add: holding_def)
qed

text \<open>
  Claim C9. In every state that a call of \<open>SearchAll\<close> passes through, the units that
  hold a slot are as many as the tokens in \<open>sem\<close>, which are at most \<open>maxConcurrent\<close>,
  so at most \<open>maxConcurrent\<close> calls of \<open>Search\<close> are in flight, 2 for the default. A
  unit calls \<open>Search\<close> only after its send on \<open>sem\<close>, and once \<open>Search\<close> has returned,
  with a failure or with results, the unit can release its slot and be done.
\<close>

theorem concurrency_cap:
  "(inCall rm s \<longrightarrow>
      sem s = holding s \<and> inFlight s \<le> holding s
      \<and> int (inFlight s) \<le> max 0 (maxConcurrent rm)
      \<and> (\<forall>i rr. i < length (units s) \<and> units s ! i = Returned rr \<longrightarrow>
            0 < sem s
            \<and> step rm s (s\<lparr>sem := sem s - 1, units := (units s)[i := Finished]\<rparr>)))
   \<and> (step rm s s' \<and> i < length (units s) \<and> units s' ! i = Searching
        \<and> units s ! i \<noteq> Searching \<longrightarrow> units s ! i = AtSelect \<and> sem s' = sem s + 1)
   \<and> maxConcurrent NewRegistryManager = 2
   \<and> maxConcurrent (AddRegistry rm r) = maxConcurrent rm"
proof (intro conjI impI allI)
  assume a: "inCall rm s"
  from inCall_inv[OF a] show sh: "sem s = holding s" by simp
  show "inFlight s \<le> holding s" by (rule inFlight_le_holding)
  show "int (inFlight s) \<le> max 0 (maxConcurrent rm)"
    using inCall_inv[OF a] inFlight_le_holding[of s] by auto
  fix i rr
  assume b: "i < length (units s) \<and> units s ! i = Returned rr"
  then show "0 < sem s" using holding_pos[of i s] sh by simp
  show "step rm s (s\<lparr>sem := sem s - 1, units := (units s)[i := Finished]\<rparr>)"
    using b by (intro release[of i s rr]) simp_all
next
  assume a: "step rm s s' \<and> i < length (units s) \<and> units s' ! i = Searching
        \<and> units s ! i \<noteq> Searching"
  then have st: "step rm s s'" and i: "i < length (units s)" and s': "units s' ! i = Searching"
    and s: "units s ! i \<noteq> Searching" by blast+
  from st i s' s show "units s ! i = AtSelect"
    by (induction rule: step.induct) (auto simp: nth_list_update split: if_splits)
  from st i s' s show "sem s' = sem s + 1"
    by (induction rule: step.induct) (auto simp: nth_list_update split: if_splits)
next
  show "maxConcurrent NewRegistryManager = 2"
    by (simp add: NewRegistryManager_def defaultMaxConcurrentSearches_def)
  show "maxConcurrent (AddRegistry rm r) = maxConcurrent rm"
    by (simp add: AddRegistry_def)
qed


lemma threeRegistries_eval:
  "length (registries threeRegistries) = 3" "maxConcurrent threeRegistries = 2"
  by (simp_all add: threeRegistries_def AddRegistry_def NewRegistryManager_def
      defaultMaxConcurrentSearches_def)

lemma threeRegistries_run:
  "inCall threeRegistries
     \<lparr>sem = 2, units = [Returned (Inl (ErrorString ''timeout'')), Searching, AtSelect]\<rparr>"
proof -
  let ?rm = threeRegistries
  let ?s0 = "\<lparr>sem = 0, units = [AtSelect, AtSelect, AtSelect]\<rparr>"
  let ?s1 = "\<lparr>sem = 1, units = [Searching, AtSelect, AtSelect]\<rparr>"
  let ?s2 = "\<lparr>sem = 2, units = [Searching, Searching, AtSelect]\<rparr>"
  let ?s3 = "\<lparr>sem = 2, units = [Returned (Inl (ErrorString ''timeout'')), Searching, AtSelect]\<rparr>"
  have "initCall ?rm = ?s0"
    by (simp add: initCall_def threeRegistries_eval numeral_3_eq_3)
  then have r0: "inCall ?rm ?s0" using inCall_init[of ?rm] by simp
  have "step ?rm ?s0 (?s0\<lparr>sem := sem ?s0 + 1, units := (units ?s0)[0 := Searching]\<rparr>)"
    by (rule acquire) (simp_all add: threeRegistries_eval)
  then have "step ?rm ?s0 ?s1" by simp
  then have r1: "inCall ?rm ?s1" using r0 inCall_step by blast
  have "step ?rm ?s1 (?s1\<lparr>sem := sem ?s1 + 1, units := (units ?s1)[1 := Searching]\<rparr>)"
    by (rule acquire) (simp_all add: threeRegistries_eval)
  then have "step ?rm ?s1 ?s2" by (simp add: numeral_2_eq_2)
  then have r2: "inCall ?rm ?s2" using r1 inCall_step by blast
  have "step ?rm ?s2
          (?s2\<lparr>units := (units ?s2)[0 := Returned (Inl (ErrorString ''timeout''))]\<rparr>)"
    by (rule returned) simp_all
  then have "step ?rm ?s2 ?s3" by simp
  then show ?thesis using r2 inCall_step by blast
qed

theorem concurrency_cap_witness:
  "inCall threeRegistries
     \<lparr>sem = 2, units = [Returned (Inl (ErrorString ''timeout'')), Searching, AtSelect]\<rparr>
   \<and> int (inFlight
        \<lparr>sem = 2, units = [Returned (Inl (ErrorString ''timeout'')), Searching, AtSelect]\<rparr>)
       \<le> 2
   \<and> holding \<lparr>sem = 2, units = [Returned (Inl (ErrorString ''timeout'')), Searching, AtSelect]\<rparr>
       = 2
   \<and> step threeRegistries
        \<lparr>sem = 2, units = [Returned (Inl (ErrorString ''timeout'')), Searching, AtSelect]\<rparr>
        \<lparr>sem = 1, units = [Finished, Searching, AtSelect]\<rparr>
   \<and> step threeRegistries
        \<lparr>sem = 1, units = [Finished, Searching, AtSelect]\<rparr>
        \<lparr>sem = 2, units = [Finished, Searching, Searching]\<rparr>"
proof -
  let ?rm = threeRegistries
  let ?s3 = "\<lparr>sem = 2, units = [Returned (Inl (ErrorString ''timeout'')), Searching, AtSelect]\<rparr>"
  let ?s4 = "\<lparr>sem = 1, units = [Finished, Searching, AtSelect]\<rparr>"
  let ?s5 = "\<lparr>sem = 2, units = [Finished, Searching, Searching]\<rparr>"
  note cap = concurrency_cap[where rm="?rm" and s="?s3", THEN conjunct1, THEN mp,
      OF threeRegistries_run]
  have h: "sem ?s3 = holding ?s3" and f: "int (inFlight ?s3) \<le> max 0 (maxConcurrent ?rm)"
    using cap by blast+
  have "0 < length (units ?s3) \<and> units ?s3 ! 0 = Returned (Inl (ErrorString ''timeout''))"
    by simp
  then have "step ?rm ?s3 (?s3\<lparr>sem := sem ?s3 - 1, units := (units ?s3)[0 := Finished]\<rparr>)"
    using cap by blast
  then have st: "step ?rm ?s3 ?s4" by simp
  have "step ?rm ?s4 (?s4\<lparr>sem := sem ?s4 + 1, units := (units ?s4)[2 := Searching]\<rparr>)"
    by (rule acquire) (simp_all add: threeRegistries_eval)
  then have st2: "step ?rm ?s4 ?s5" by (simp add: numeral_2_eq_2)
  have "2 < length (units ?s4) \<and> units ?s5 ! 2 = Searching \<and> units ?s4 ! 2 \<noteq> Searching"
    by simp
  then have "units ?s4 ! 2 = AtSelect \<and> sem ?s5 = sem ?s4 + 1"
    using concurrency_cap[where rm="?rm" and s="?s4" and s'="?s5" and i=2,
        THEN conjunct2, THEN conjunct1] st2
    by blast
  show ?thesis
    using threeRegistries_run h f st st2 by (simp add: threeRegistries_eval)
qed

end
